theory Spec2Isabelle
  imports Main "HOL-Library.Word"
begin

section \<open>The label-byte patcher of gulf.js\<close>

text \<open>
  The source function \<^verbatim>\<open>patchLabelBytesIfNeeded\<close> receives a \<^verbatim>\<open>Uint8Array\<close> and
  mutates it in place. The array is modelled as a list of 8-bit words; the
  mutation is explicit state passing. Three facts of JavaScript typed arrays
  are written into the model:
  \<^item> a read at an index outside the array yields \<^verbatim>\<open>undefined\<close> (here \<open>None\<close>),
    and every comparison of \<^verbatim>\<open>undefined\<close> with a number is false;
  \<^item> a write at an index outside the array (negative or too large) is
    silently dropped;
  \<^item> the length of a typed array is fixed.
  The only loop without a bound is the \<^verbatim>\<open>do ... while\<close> of the wildcard gap, so
  it is a partial function into \<open>option\<close>, where \<open>None\<close> means that the loop
  never exits.
\<close>

subsection \<open>Bytes, reads and writes\<close>

type_synonym byte = "8 word"

definition charCodeAt0 :: "char \<Rightarrow> byte" where
  "charCodeAt0 c = of_nat (of_char c)"

text \<open>\<^verbatim>\<open>[...str].map(char => char.charCodeAt(0))\<close> on an ASCII string.\<close>

definition bytesOf :: "string \<Rightarrow> byte list" where
  "bytesOf str = map charCodeAt0 str"

text \<open>\<^verbatim>\<open>labelBytes[i]\<close> for a non-negative index: \<open>None\<close> is \<^verbatim>\<open>undefined\<close>.\<close>

definition readByte :: "byte list \<Rightarrow> nat \<Rightarrow> byte option" where
  "readByte labelBytes i = (if i < length labelBytes then Some (labelBytes ! i) else None)"

text \<open>
  The array together with the log of every index the code has assigned to,
  in order. The log is a ghost field: nothing reads it.
\<close>

record patchState =
  labelBytes :: "byte list"
  writeLog :: "int list"

text \<open>\<^verbatim>\<open>labelBytes[i] = v\<close>: dropped when \<open>i\<close> is not an index of the array.\<close>

definition storeByte :: "patchState \<Rightarrow> int \<Rightarrow> byte \<Rightarrow> patchState" where
  "storeByte st i v =
     \<lparr> labelBytes = (if 0 \<le> i \<and> i < int (length (labelBytes st))
                      then (labelBytes st)[nat i := v] else labelBytes st),
       writeLog = writeLog st @ [i] \<rparr>"

subsection \<open>isAlphaChar\<close>

text \<open>
  \<^verbatim>\<open>(code > 64 && code < 91) || (code > 96 && code < 123)\<close>; on \<^verbatim>\<open>undefined\<close>
  all four comparisons are false.
\<close>

definition isAlphaChar :: "byte option \<Rightarrow> bool" where
  "isAlphaChar code =
     (case code of
        None \<Rightarrow> False
      | Some c \<Rightarrow> (64 < c \<and> c < 91) \<or> (96 < c \<and> c < 123))"

subsection \<open>Constants of patchLabelBytesIfNeeded\<close>

definition SEARCH_PATTERN_BYTES :: "byte list" where
  "SEARCH_PATTERN_BYTES = bytesOf ''Gulf of Mexico''"

definition CHAR_CODE_SPACE :: byte where
  "CHAR_CODE_SPACE = charCodeAt0 CHR '' ''"

definition CHAR_CODE_CAPITAL_M :: byte where
  "CHAR_CODE_CAPITAL_M = charCodeAt0 CHR ''M''"

definition CHAR_CODE_PARENTH :: byte where
  "CHAR_CODE_PARENTH = charCodeAt0 CHR ''(''"

text \<open>Line 102; the source defines this constant and never uses it.\<close>

definition CHAR_CODE_CAPITAL_G :: byte where
  "CHAR_CODE_CAPITAL_G = charCodeAt0 CHR ''G''"

text \<open>The source writes \<^verbatim>\<open>")".charCodeAt(0)\<close> in place (line 155); it is named here.\<close>

definition CHAR_CODE_CLOSE_PARENTH :: byte where
  "CHAR_CODE_CLOSE_PARENTH = charCodeAt0 CHR '')''"

definition REPLACEMENT_BYTES :: "byte list" where
  "REPLACEMENT_BYTES = bytesOf ''Sweden''"

subsection \<open>The scan phase\<close>

text \<open>
  Lines 122 to 124: \<^verbatim>\<open>do { labelByteOffset++ } while (!isAlphaChar(labelBytes[start + offset]))\<close>.
  The read is not guarded by the length of the array. The offset is a
  JavaScript number; it is modelled as an unbounded natural number (a double
  stops growing at \<open>2^53\<close>, where the loop still does not exit).
\<close>

partial_function (option) gapLoop :: "byte list \<Rightarrow> nat \<Rightarrow> nat \<Rightarrow> nat option" where
  [code]: "gapLoop bytes labelByteStartingIndex labelByteOffset =
     (let labelByteOffset' = labelByteOffset + 1 in
      if \<not> isAlphaChar (readByte bytes (labelByteStartingIndex + labelByteOffset'))
      then gapLoop bytes labelByteStartingIndex labelByteOffset'
      else Some labelByteOffset')"

text \<open>
  Lines 111 to 135: the loop over the pattern, by recursion over the pattern
  bytes still to be matched. The result is the final value of \<^verbatim>\<open>foundMatch\<close>.
\<close>

fun patternLoop :: "byte list \<Rightarrow> nat \<Rightarrow> nat \<Rightarrow> byte list \<Rightarrow> bool option" where
  "patternLoop bytes labelByteStartingIndex labelByteOffset [] = Some True"
| "patternLoop bytes labelByteStartingIndex labelByteOffset (searchByte # pattern) =
     (if labelByteStartingIndex + labelByteOffset \<ge> length bytes then Some False
      else
        let labelByte = bytes ! (labelByteStartingIndex + labelByteOffset) in
        if searchByte = CHAR_CODE_SPACE \<and> \<not> isAlphaChar (Some labelByte) then
          (case gapLoop bytes labelByteStartingIndex labelByteOffset of
             None \<Rightarrow> None
           | Some labelByteOffset' \<Rightarrow>
               patternLoop bytes labelByteStartingIndex labelByteOffset' pattern)
        else if labelByte = searchByte then
          patternLoop bytes labelByteStartingIndex (labelByteOffset + 1) pattern
        else Some False)"

text \<open>The matcher at one candidate start index (lines 108 to 135).\<close>

definition foundMatch :: "byte list \<Rightarrow> nat \<Rightarrow> bool option" where
  "foundMatch bytes labelByteStartingIndex =
     patternLoop bytes labelByteStartingIndex 0 SEARCH_PATTERN_BYTES"

subsection \<open>The patch phase\<close>

text \<open>
  \<^verbatim>\<open>labelBytes.indexOf(value, fromIndex)\<close> for \<open>0 \<le> fromIndex\<close>: the first index
  at or after \<open>fromIndex\<close> holding the value, or \<open>-1\<close>.
\<close>

definition indexOf :: "byte list \<Rightarrow> byte \<Rightarrow> nat \<Rightarrow> int" where
  "indexOf bytes v fromIndex =
     (case List.find (\<lambda>k. bytes ! k = v) [fromIndex ..< length bytes] of
        None \<Rightarrow> - 1
      | Some k \<Rightarrow> int k)"

text \<open>Lines 142 to 148: the first \<^verbatim>\<open>(\<close> followed by an alphabetic byte, or \<open>-1\<close>.\<close>

function parenthLoop :: "byte list \<Rightarrow> nat \<Rightarrow> int" where
  "parenthLoop bytes i =
     (if i < length bytes then
        (if bytes ! i = CHAR_CODE_PARENTH \<and> isAlphaChar (readByte bytes (i + 1))
         then int i
         else parenthLoop bytes (i + 1))
      else - 1)"
  by pat_completeness auto
termination
  by (relation "measure (\<lambda>(bytes, i). length bytes - i)") auto

declare parenthLoop.simps [simp del]

text \<open>Lines 155 to 158: blank bytes up to the closing parenthesis; returns \<open>i\<close> too.\<close>

function eraseLoop :: "patchState \<Rightarrow> nat \<Rightarrow> patchState \<times> nat" where
  "eraseLoop st i =
     (if i < length (labelBytes st) \<and> labelBytes st ! i \<noteq> CHAR_CODE_CLOSE_PARENTH
      then eraseLoop (storeByte st (int i) CHAR_CODE_SPACE) (i + 1)
      else (st, i))"
  by pat_completeness auto
termination
  by (relation "measure (\<lambda>(st, i). length (labelBytes st) - i)")
     (auto simp: storeByte_def)

declare eraseLoop.simps [simp del]

text \<open>Lines 151 to 164.\<close>

definition eraseParenth :: "patchState \<Rightarrow> patchState" where
  "eraseParenth st =
     (let parenthStartIndex = parenthLoop (labelBytes st) 0 in
      if parenthStartIndex > - 1 then
        (let (st', i) = eraseLoop st (nat parenthStartIndex) in
         if i < length (labelBytes st') then storeByte st' (int i) CHAR_CODE_SPACE
         else st')
      else st)"

text \<open>Lines 166 to 168.\<close>

definition replaceLoop :: "patchState \<Rightarrow> int \<Rightarrow> patchState" where
  "replaceLoop st mexicoStartIndex =
     foldl (\<lambda>s i. storeByte s (mexicoStartIndex + int i) (REPLACEMENT_BYTES ! i))
       st [0 ..< length REPLACEMENT_BYTES]"

text \<open>Lines 137 to 169, the body of \<^verbatim>\<open>if (foundMatch)\<close>.\<close>

definition patchMatch :: "patchState \<Rightarrow> nat \<Rightarrow> patchState" where
  "patchMatch st labelByteStartingIndex =
     (let mexicoStartIndex =
            indexOf (labelBytes st) CHAR_CODE_CAPITAL_M labelByteStartingIndex
      in replaceLoop (eraseParenth st) mexicoStartIndex)"

subsection \<open>The array keeps its length\<close>

lemma length_storeByte [simp]:
  "length (labelBytes (storeByte st i v)) = length (labelBytes st)"
  by (simp add: storeByte_def)

lemma length_eraseLoop [simp]:
  "length (labelBytes (fst (eraseLoop st i))) = length (labelBytes st)"
  by (induction st i rule: eraseLoop.induct) (subst eraseLoop.simps, simp)

lemma length_eraseParenth [simp]:
  "length (labelBytes (eraseParenth st)) = length (labelBytes st)"
proof -
  obtain st' i where e: "eraseLoop st (nat (parenthLoop (labelBytes st) 0)) = (st', i)"
    by (cases "eraseLoop st (nat (parenthLoop (labelBytes st) 0))")
  from length_eraseLoop [of st "nat (parenthLoop (labelBytes st) 0)"] e
  have "length (labelBytes st') = length (labelBytes st)" by simp
  with e show ?thesis by (simp add: eraseParenth_def Let_def)
qed

lemma length_replaceLoop [simp]:
  "length (labelBytes (replaceLoop st m)) = length (labelBytes st)"
proof -
  have "length (labelBytes (foldl (\<lambda>s i. storeByte s (m + int i) (REPLACEMENT_BYTES ! i)) st xs))
        = length (labelBytes st)" for xs
    by (induction xs arbitrary: st) simp_all
  then show ?thesis by (simp add: replaceLoop_def)
qed

lemma length_patchMatch [simp]:
  "length (labelBytes (patchMatch st k)) = length (labelBytes st)"
  by (simp add: patchMatch_def Let_def)

subsection \<open>The scan over all start indices\<close>

text \<open>
  Lines 106 to 170. The bound \<^verbatim>\<open>labelBytes.length\<close> is read again at every
  iteration; the loop ends because the patch phase keeps the length.
\<close>

function scanLoop :: "patchState \<Rightarrow> nat \<Rightarrow> patchState option" where
  "scanLoop st labelByteStartingIndex =
     (if labelByteStartingIndex < length (labelBytes st) then
        (case foundMatch (labelBytes st) labelByteStartingIndex of
           None \<Rightarrow> None
         | Some found \<Rightarrow>
             scanLoop (if found then patchMatch st labelByteStartingIndex else st)
               (labelByteStartingIndex + 1))
      else Some st)"
  by pat_completeness auto
termination
  by (relation "measure (\<lambda>(st, k). length (labelBytes st) - k)") auto

declare scanLoop.simps [simp del]

text \<open>
  The whole call on a fresh array: \<open>None\<close> when the call never returns,
  otherwise the final state (the array and the indices written).
\<close>

definition patchRun :: "byte list \<Rightarrow> patchState option" where
  "patchRun bytes = scanLoop \<lparr> labelBytes = bytes, writeLog = [] \<rparr> 0"

definition patchLabelBytesIfNeeded :: "byte list \<Rightarrow> byte list option" where
  "patchLabelBytesIfNeeded bytes = map_option labelBytes (patchRun bytes)"

subsection \<open>The constants, evaluated\<close>

lemma SEARCH_PATTERN_BYTES_eq:
  "SEARCH_PATTERN_BYTES = [71, 117, 108, 102, 32, 111, 102, 32, 77, 101, 120, 105, 99, 111]"
  by (simp add: SEARCH_PATTERN_BYTES_def bytesOf_def charCodeAt0_def)

lemma REPLACEMENT_BYTES_eq: "REPLACEMENT_BYTES = [83, 119, 101, 100, 101, 110]"
  by (simp add: REPLACEMENT_BYTES_def bytesOf_def charCodeAt0_def)

lemma char_code_eqs:
  "CHAR_CODE_SPACE = 32" "CHAR_CODE_CAPITAL_M = 77"
  "CHAR_CODE_PARENTH = 40" "CHAR_CODE_CLOSE_PARENTH = 41"
  by (simp_all add: CHAR_CODE_SPACE_def CHAR_CODE_CAPITAL_M_def CHAR_CODE_PARENTH_def
        CHAR_CODE_CLOSE_PARENTH_def bytesOf_def charCodeAt0_def)

section \<open>The wildcard-gap loop\<close>

text \<open>
  What the \<^verbatim>\<open>do ... while\<close> returns when it returns: the first offset after
  the current one at which the array holds an alphabetic byte.
\<close>

lemma gapLoop_SomeD:
  assumes "gapLoop b s off = Some r"
  shows "off < r \<and> isAlphaChar (readByte b (s + r)) \<and>
         (\<forall>j. off < j \<and> j < r \<longrightarrow> \<not> isAlphaChar (readByte b (s + j)))"
proof (rule gapLoop.raw_induct [OF _ assms], goal_cases)
  case (1 gl b s off r)
  show ?case
  proof (cases "isAlphaChar (readByte b (s + (off + 1)))")
    case True
    with 1(2) have "r = off + 1" by (simp add: Let_def)
    with True show ?thesis by auto
  next
    case False
    with 1(2) have "gl b s (off + 1) = Some r" by (simp add: Let_def)
    from 1(1)[OF this]
    have a: "off + 1 < r" and b: "isAlphaChar (readByte b (s + r))"
      and c: "\<forall>j. off + 1 < j \<and> j < r \<longrightarrow> \<not> isAlphaChar (readByte b (s + j))"
      by auto
    have "\<not> isAlphaChar (readByte b (s + j))" if "off < j" "j < r" for j
    proof (cases "j = off + 1")
      case True
      with False show ?thesis by simp
    next
      case False
      with that have "off + 1 < j" by simp
      with c that show ?thesis by blast
    qed
    with a b show ?thesis by auto
  qed
qed

lemma gapLoop_first_alpha:
  "off < r \<Longrightarrow> isAlphaChar (readByte b (s + r)) \<Longrightarrow>
   (\<forall>j. off < j \<and> j < r \<longrightarrow> \<not> isAlphaChar (readByte b (s + j))) \<Longrightarrow>
   gapLoop b s off = Some r"
proof (induction "r - off" arbitrary: off)
  case 0
  then show ?case by simp
next
  case (Suc n)
  show ?case
  proof (cases "r = off + 1")
    case True
    with Suc.prems show ?thesis by (subst gapLoop.simps) (simp add: Let_def)
  next
    case False
    with Suc.prems have lt: "off + 1 < r" by simp
    with Suc.prems(3) have na: "\<not> isAlphaChar (readByte b (s + (off + 1)))"
      by (metis less_add_one)
    have "gapLoop b s (off + 1) = Some r"
      using Suc.hyps(2) Suc.prems lt by (intro Suc.hyps(1)) auto
    with na show ?thesis by (subst gapLoop.simps) (simp add: Let_def)
  qed
qed

text \<open>With no alphabetic byte after the current offset the loop never exits.\<close>

lemma gapLoop_None:
  "(\<forall>j > off. \<not> isAlphaChar (readByte b (s + j))) \<Longrightarrow> gapLoop b s off = None"
  using gapLoop_SomeD [of b s off] by (cases "gapLoop b s off") auto

section \<open>The matcher read on the suffix of the array\<close>

text \<open>
  A proof device, not a function of the source: the loop over the pattern
  only ever looks at the array from the cursor onwards, so it can be read as a
  function of that suffix. \<open>matchTail\<close> is this reading, and
  \<open>patternLoop_matchTail\<close> below proves that it computes what the loop of the
  source computes. The wildcard gap becomes \<open>dropWhile\<close>; an empty rest after it
  is the loop that never exits.
\<close>

definition nonAlpha :: "byte \<Rightarrow> bool" where
  "nonAlpha c = (\<not> isAlphaChar (Some c))"

fun matchTail :: "byte list \<Rightarrow> byte list \<Rightarrow> bool option" where
  "matchTail xs [] = Some True"
| "matchTail [] (p # ps) = Some False"
| "matchTail (x # xs) (p # ps) =
     (if p = CHAR_CODE_SPACE \<and> nonAlpha x then
        (case dropWhile nonAlpha xs of [] \<Rightarrow> None | y # ys \<Rightarrow> matchTail (y # ys) ps)
      else if x = p then matchTail xs ps
      else Some False)"

lemma readByte_drop: "readByte b (k + j) = readByte (drop k b) j"
  by (auto simp: readByte_def)

lemma dropWhile_eq_drop: "dropWhile P xs = drop (length (takeWhile P xs)) xs"
  by (metis append_eq_conv_conj takeWhile_dropWhile_id)

lemma gapLoop_past_end:
  assumes "length b \<le> s + off + 1"
  shows "gapLoop b s off = None"
proof (rule gapLoop_None, intro allI impI)
  fix j assume "off < j"
  with assms have "\<not> s + j < length b" by simp
  then show "\<not> isAlphaChar (readByte b (s + j))"
    by (simp add: readByte_def isAlphaChar_def)
qed

lemma gapLoop_dropWhile:
  "gapLoop b s off =
     (case dropWhile nonAlpha (drop (s + off + 1) b) of
        [] \<Rightarrow> None
      | y # ys \<Rightarrow> Some (off + 1 + length (takeWhile nonAlpha (drop (s + off + 1) b))))"
proof (induction "length b - (s + off + 1)" arbitrary: off)
  case 0
  then have le: "length b \<le> s + off + 1" by simp
  then have "drop (s + off + 1) b = []" by simp
  with gapLoop_past_end [OF le] show ?case by simp
next
  case (Suc n)
  then have lt: "s + off + 1 < length b" by simp
  let ?x = "b ! (s + off + 1)"
  let ?t' = "drop (s + (off + 1) + 1) b"
  have d: "drop (s + off + 1) b = ?x # drop (s + (off + 1) + 1) b"
    using lt by (simp add: Cons_nth_drop_Suc)
  show ?case
  proof (cases "nonAlpha ?x")
    case True
    with lt have step: "gapLoop b s off = gapLoop b s (off + 1)"
      by (subst gapLoop.simps) (simp add: Let_def readByte_def nonAlpha_def)
    have "n = length b - (s + (off + 1) + 1)" using Suc.hyps(2) by simp
    from Suc.hyps(1) [OF this]
    have ih: "gapLoop b s (off + 1) =
        (case dropWhile nonAlpha ?t' of [] \<Rightarrow> None
         | y # ys \<Rightarrow> Some (off + 1 + 1 + length (takeWhile nonAlpha ?t')))" .
    have dw: "dropWhile nonAlpha (?x # ?t') = dropWhile nonAlpha ?t'"
      and tw: "takeWhile nonAlpha (?x # ?t') = ?x # takeWhile nonAlpha ?t'"
      using True by simp_all
    have e: "off + 1 + length (?x # takeWhile nonAlpha ?t')
        = off + 1 + 1 + length (takeWhile nonAlpha ?t')" by simp
    show ?thesis
      by (simp only: step d dw tw ih e)
  next
    case False
    with lt have "gapLoop b s off = Some (off + 1)"
      by (subst gapLoop.simps) (simp add: Let_def readByte_def nonAlpha_def)
    with False show ?thesis unfolding d by simp
  qed
qed

lemma patternLoop_matchTail:
  "patternLoop b s off ps = matchTail (drop (s + off) b) ps"
proof (induction ps arbitrary: off)
  case Nil
  show ?case by simp
next
  case (Cons p ps)
  show ?case
  proof (cases "s + off < length b")
    case False
    then show ?thesis by simp
  next
    case True
    then have d: "drop (s + off) b = b ! (s + off) # drop (s + off + 1) b"
      by (simp add: Cons_nth_drop_Suc)
    show ?thesis
    proof (cases "p = CHAR_CODE_SPACE \<and> nonAlpha (b ! (s + off))")
      case gap: True
      let ?t = "drop (s + off + 1) b"
      from gap have gap': "p = CHAR_CODE_SPACE \<and> \<not> isAlphaChar (Some (b ! (s + off)))"
        by (simp add: nonAlpha_def)
      have lhs: "patternLoop b s off (p # ps) =
          (case gapLoop b s off of None \<Rightarrow> None | Some r \<Rightarrow> patternLoop b s r ps)"
        using True gap' by simp
      have rhs: "matchTail (drop (s + off) b) (p # ps) =
          (case dropWhile nonAlpha ?t of [] \<Rightarrow> None | y # ys \<Rightarrow> matchTail (y # ys) ps)"
        using gap by (subst d) simp
      show ?thesis
      proof (cases "dropWhile nonAlpha ?t")
        case Nil
        have "gapLoop b s off = None"
          unfolding gapLoop_dropWhile [of b s off] Nil by simp
        then show ?thesis unfolding lhs rhs Nil by simp
      next
        case (Cons y ys)
        let ?r = "off + 1 + length (takeWhile nonAlpha ?t)"
        have g: "gapLoop b s off = Some ?r"
          unfolding gapLoop_dropWhile [of b s off] Cons by simp
        have "s + ?r = length (takeWhile nonAlpha ?t) + (s + off + 1)" by simp
        then have "drop (s + ?r) b = dropWhile nonAlpha ?t"
          unfolding dropWhile_eq_drop [of nonAlpha ?t] drop_drop by (rule arg_cong)
        then have "matchTail (y # ys) ps = patternLoop b s ?r ps"
          unfolding Cons.IH [of ?r] Cons by simp
        then show ?thesis unfolding lhs rhs Cons g by simp
      qed
    next
      case False
      then have ng: "\<not> (p = CHAR_CODE_SPACE \<and> \<not> isAlphaChar (Some (b ! (s + off))))"
        by (simp add: nonAlpha_def)
      have lhs: "patternLoop b s off (p # ps) =
          (if b ! (s + off) = p then patternLoop b s (off + 1) ps else Some False)"
      proof -
        have nle: "\<not> length b \<le> s + off" using True by simp
        show ?thesis
          by (subst patternLoop.simps) (simp only: Let_def if_not_P [OF ng] if_not_P [OF nle])
      qed
      have rhs: "matchTail (drop (s + off) b) (p # ps) =
          (if b ! (s + off) = p then matchTail (drop (s + off + 1) b) ps else Some False)"
        by (subst d) (simp only: matchTail.simps if_not_P [OF False])
      show ?thesis
        unfolding lhs rhs Cons.IH [of "off + 1"] by (simp add: add.assoc)
    qed
  qed
qed

lemma foundMatch_matchTail:
  "foundMatch b s = matchTail (drop s b) SEARCH_PATTERN_BYTES"
  by (simp add: foundMatch_def patternLoop_matchTail)

subsection \<open>One step of the matcher, and the whole phrase\<close>

lemma nonAlpha_iff: "nonAlpha c \<longleftrightarrow> \<not> ((64 < c \<and> c < 91) \<or> (96 < c \<and> c < 123))"
  by (simp add: nonAlpha_def isAlphaChar_def)

lemma nonAlpha_space [simp]: "nonAlpha CHAR_CODE_SPACE"
  by (simp add: nonAlpha_iff char_code_eqs)

lemma case_nonempty: "xs \<noteq> [] \<Longrightarrow> (case xs of [] \<Rightarrow> a | y # ys \<Rightarrow> f (y # ys)) = f xs"
  by (cases xs) simp_all

lemma matchTail_lit:
  "p \<noteq> CHAR_CODE_SPACE \<Longrightarrow> matchTail (x # xs) (p # ps) =
     (if x = p then matchTail xs ps else Some False)"
  by simp

lemma matchTail_gap_alpha:
  "\<not> nonAlpha x \<Longrightarrow> matchTail (x # xs) (CHAR_CODE_SPACE # ps) = Some False"
  using nonAlpha_space by auto

lemma matchTail_gap_skip:
  assumes "g \<noteq> []" "\<forall>c \<in> set g. nonAlpha c" "\<not> nonAlpha y"
  shows "matchTail (g @ y # ys) (CHAR_CODE_SPACE # ps) = matchTail (y # ys) ps"
proof -
  obtain a g' where g: "g = a # g'" using assms(1) by (cases g) auto
  have "dropWhile nonAlpha (g' @ y # ys) = y # ys"
    using assms(2,3) g by (simp add: dropWhile_append)
  with assms(2) g show ?thesis by simp
qed

lemma matchTail_gap_TrueD:
  assumes "matchTail xs (CHAR_CODE_SPACE # ps) = Some True"
  shows "\<exists>g y ys. xs = g @ y # ys \<and> g \<noteq> [] \<and> (\<forall>c \<in> set g. nonAlpha c) \<and> \<not> nonAlpha y
            \<and> matchTail (y # ys) ps = Some True"
proof (cases xs)
  case Nil
  with assms show ?thesis by simp
next
  case (Cons x xs')
  show ?thesis
  proof (cases "nonAlpha x")
    case False
    from assms show ?thesis unfolding Cons matchTail_gap_alpha [OF False] by simp
  next
    case True
    let ?d = "dropWhile nonAlpha xs'"
    from assms Cons True have m: "(case ?d of [] \<Rightarrow> None | y # ys \<Rightarrow> matchTail (y # ys) ps) = Some True"
      by simp
    then obtain y ys where d: "?d = y # ys" by (cases ?d) auto
    with m have mt: "matchTail (y # ys) ps = Some True" by simp
    have "xs' = takeWhile nonAlpha xs' @ y # ys"
      using d takeWhile_dropWhile_id [of nonAlpha xs'] by simp
    then have "xs = (x # takeWhile nonAlpha xs') @ y # ys" using Cons by simp
    moreover have "\<forall>c \<in> set (x # takeWhile nonAlpha xs'). nonAlpha c"
      using True by (auto dest: set_takeWhileD)
    moreover have "\<not> nonAlpha y" using d hd_dropWhile [of nonAlpha xs'] by auto
    ultimately show ?thesis using mt by blast
  qed
qed

lemma matchTail_lit_TrueD:
  assumes "p \<noteq> CHAR_CODE_SPACE" "matchTail xs (p # ps) = Some True"
  shows "\<exists>xs'. xs = p # xs' \<and> matchTail xs' ps = Some True"
  using assms by (cases xs) (auto split: if_splits)


lemma word_bytes:
  "bytesOf ''Gulf'' = [71, 117, 108, 102]"
  "bytesOf ''of'' = [111, 102]"
  "bytesOf ''Mexico'' = [77, 101, 120, 105, 99, 111]"
  "bytesOf ''Sweden'' = [83, 119, 101, 100, 101, 110]"
  by (simp_all add: bytesOf_def charCodeAt0_def)

lemma pattern_split:
  "SEARCH_PATTERN_BYTES =
     bytesOf ''Gulf'' @ CHAR_CODE_SPACE # bytesOf ''of'' @
     CHAR_CODE_SPACE # bytesOf ''Mexico''"
  by (simp add: SEARCH_PATTERN_BYTES_def CHAR_CODE_SPACE_def bytesOf_def)

lemma matchTail_lits:
  "CHAR_CODE_SPACE \<notin> set ls \<Longrightarrow> matchTail (ls @ xs) (ls @ ps) = matchTail xs ps"
  by (induction ls) auto

lemma matchTail_lits_TrueD:
  "CHAR_CODE_SPACE \<notin> set ls \<Longrightarrow> matchTail xs (ls @ ps) = Some True \<Longrightarrow>
   \<exists>xs'. xs = ls @ xs' \<and> matchTail xs' ps = Some True"
proof (induction ls arbitrary: xs)
  case Nil
  then show ?case by simp
next
  case (Cons l ls)
  from Cons.prems have "l \<noteq> CHAR_CODE_SPACE" by auto
  with Cons.prems(2) obtain xs1 where x: "xs = l # xs1" and m: "matchTail xs1 (ls @ ps) = Some True"
    using matchTail_lit_TrueD [of l xs "ls @ ps"] by auto
  from Cons.IH [OF _ m] Cons.prems(1) obtain xs' where "xs1 = ls @ xs'" "matchTail xs' ps = Some True"
    by auto
  with x show ?case by simp
qed

lemma matchTail_phrase_prefix:
  assumes "g1 \<noteq> []" "g2 \<noteq> []" "\<forall>c \<in> set g1. nonAlpha c" "\<forall>c \<in> set g2. nonAlpha c"
    and "\<not> nonAlpha y"
  shows "matchTail (bytesOf ''Gulf'' @ g1 @ bytesOf ''of'' @ g2 @ y # ys)
           SEARCH_PATTERN_BYTES
         = matchTail (y # ys) (bytesOf ''Mexico'')"
proof -
  have ns: "CHAR_CODE_SPACE \<notin> set (bytesOf ''Gulf'')"
    "CHAR_CODE_SPACE \<notin> set (bytesOf ''of'')"
    by (simp_all add: char_code_eqs bytesOf_def charCodeAt0_def)
  have o: "bytesOf ''of'' @ zs = 111 # 102 # zs" for zs
    by (simp add: bytesOf_def charCodeAt0_def)
  have ao: "\<not> nonAlpha 111" by (simp add: nonAlpha_iff)
  have "matchTail (bytesOf ''Gulf'' @ g1 @ bytesOf ''of'' @ g2 @ y # ys)
           SEARCH_PATTERN_BYTES
        = matchTail (g1 @ bytesOf ''of'' @ g2 @ y # ys)
            (CHAR_CODE_SPACE # bytesOf ''of'' @ CHAR_CODE_SPACE # bytesOf ''Mexico'')"
    unfolding pattern_split by (rule matchTail_lits [OF ns(1)])
  also have "\<dots> = matchTail (bytesOf ''of'' @ g2 @ y # ys)
            (bytesOf ''of'' @ CHAR_CODE_SPACE # bytesOf ''Mexico'')"
    unfolding o [of "g2 @ y # ys"] by (rule matchTail_gap_skip [OF assms(1,3) ao])
  also have "\<dots> = matchTail (g2 @ y # ys) (CHAR_CODE_SPACE # bytesOf ''Mexico'')"
    by (rule matchTail_lits [OF ns(2)])
  also have "\<dots> = matchTail (y # ys) (bytesOf ''Mexico'')"
    by (rule matchTail_gap_skip [OF assms(2,4,5)])
  finally show ?thesis .
qed


lemma matchTail_phrase_Sweden:
  assumes "g1 \<noteq> []" "g2 \<noteq> []" "\<forall>c \<in> set g1. nonAlpha c" "\<forall>c \<in> set g2. nonAlpha c"
  shows "matchTail (bytesOf ''Gulf'' @ g1 @ bytesOf ''of'' @ g2 @
                    bytesOf ''Sweden'' @ post) SEARCH_PATTERN_BYTES = Some False"
proof -
  have am: "\<not> nonAlpha 83" by (simp add: nonAlpha_iff)
  have m: "bytesOf ''Sweden'' @ post = 83 # [119, 101, 100, 101, 110] @ post"
    by (simp add: bytesOf_def charCodeAt0_def)
  show ?thesis
    unfolding m matchTail_phrase_prefix [OF assms am]
    by (simp add: bytesOf_def charCodeAt0_def char_code_eqs)
qed

lemma matchTail_TrueD:
  assumes "matchTail xs SEARCH_PATTERN_BYTES = Some True"
  shows "\<exists>g1 g2 post.
           xs = bytesOf ''Gulf'' @ g1 @ bytesOf ''of'' @ g2 @
                bytesOf ''Mexico'' @ post
         \<and> g1 \<noteq> [] \<and> g2 \<noteq> [] \<and> (\<forall>c \<in> set g1. nonAlpha c) \<and> (\<forall>c \<in> set g2. nonAlpha c)"
proof -
  have ns: "CHAR_CODE_SPACE \<notin> set (bytesOf ''Gulf'')"
    "CHAR_CODE_SPACE \<notin> set (bytesOf ''of'')"
    "CHAR_CODE_SPACE \<notin> set (bytesOf ''Mexico'')"
    by (simp_all add: char_code_eqs bytesOf_def charCodeAt0_def)
  from assms obtain x1 where x1: "xs = bytesOf ''Gulf'' @ x1"
    and m1: "matchTail x1 (CHAR_CODE_SPACE # bytesOf ''of'' @
               CHAR_CODE_SPACE # bytesOf ''Mexico'') = Some True"
    unfolding pattern_split using matchTail_lits_TrueD [OF ns(1)] by blast
  from matchTail_gap_TrueD [OF m1] obtain g1 y1 ys1 where
    x2: "x1 = g1 @ y1 # ys1" and g1: "g1 \<noteq> []" "\<forall>c \<in> set g1. nonAlpha c"
    and m2: "matchTail (y1 # ys1) (bytesOf ''of'' @
               CHAR_CODE_SPACE # bytesOf ''Mexico'') = Some True"
    by blast
  from matchTail_lits_TrueD [OF ns(2) m2] obtain x3 where
    x3: "y1 # ys1 = bytesOf ''of'' @ x3"
    and m3: "matchTail x3 (CHAR_CODE_SPACE # bytesOf ''Mexico'') = Some True"
    by blast
  from matchTail_gap_TrueD [OF m3] obtain g2 y2 ys2 where
    x4: "x3 = g2 @ y2 # ys2" and g2: "g2 \<noteq> []" "\<forall>c \<in> set g2. nonAlpha c"
    and m4: "matchTail (y2 # ys2) (bytesOf ''Mexico'' @ []) = Some True"
    by auto
  from matchTail_lits_TrueD [OF ns(3) m4] obtain post where
    x5: "y2 # ys2 = bytesOf ''Mexico'' @ post"
    by blast
  have "xs = bytesOf ''Gulf'' @ g1 @ bytesOf ''of'' @ g2 @
                bytesOf ''Mexico'' @ post"
    unfolding x1 x2 x3 x4 x5 ..
  with g1 g2 show ?thesis by blast
qed

section \<open>The searches of the patch phase\<close>

lemma first_unique:
  fixes k k' :: nat
  assumes "i \<le> k \<and> Q k \<and> (\<forall>j. i \<le> j \<and> j < k \<longrightarrow> \<not> Q j)"
    and "i \<le> k' \<and> Q k' \<and> (\<forall>j. i \<le> j \<and> j < k' \<longrightarrow> \<not> Q j)"
  shows "k = k'"
proof (rule ccontr)
  assume "k \<noteq> k'"
  then consider "k < k'" | "k' < k" by linarith
  then show False using assms by cases blast+
qed

lemma find_upt_Some:
  "List.find P [i ..< n] = Some k \<longleftrightarrow> i \<le> k \<and> k < n \<and> P k \<and> (\<forall>j. i \<le> j \<and> j < k \<longrightarrow> \<not> P j)"
proof -
  have "List.find P [i ..< n] = Some k \<longleftrightarrow>
      (\<exists>a < length [i ..< n]. P ([i ..< n] ! a) \<and> k = [i ..< n] ! a \<and> (\<forall>j < a. \<not> P ([i ..< n] ! j)))"
    by (rule find_Some_iff)
  also have "\<dots> \<longleftrightarrow> i \<le> k \<and> k < n \<and> P k \<and> (\<forall>j. i \<le> j \<and> j < k \<longrightarrow> \<not> P j)"
  proof
    assume "\<exists>a < length [i ..< n]. P ([i ..< n] ! a) \<and> k = [i ..< n] ! a \<and> (\<forall>j < a. \<not> P ([i ..< n] ! j))"
    then obtain a where a: "a < n - i" "P (i + a)" "k = i + a" "\<forall>j < a. \<not> P (i + j)"
      by auto
    have "\<not> P j" if "i \<le> j" "j < k" for j
    proof -
      from that a(3) have "j - i < a" by linarith
      with a(4) have "\<not> P (i + (j - i))" by blast
      with that show ?thesis by simp
    qed
    with a show "i \<le> k \<and> k < n \<and> P k \<and> (\<forall>j. i \<le> j \<and> j < k \<longrightarrow> \<not> P j)" by auto
  next
    assume r: "i \<le> k \<and> k < n \<and> P k \<and> (\<forall>j. i \<le> j \<and> j < k \<longrightarrow> \<not> P j)"
    then have "k - i < length [i ..< n]" "P ([i ..< n] ! (k - i))" "k = [i ..< n] ! (k - i)"
      by auto
    moreover have "\<forall>j < k - i. \<not> P ([i ..< n] ! j)"
    proof (intro allI impI)
      fix j assume "j < k - i"
      with r have "i \<le> i + j" "i + j < k" "i + j < n" by linarith+
      with r show "\<not> P ([i ..< n] ! j)" by simp
    qed
    ultimately show "\<exists>a < length [i ..< n]. P ([i ..< n] ! a) \<and> k = [i ..< n] ! a \<and> (\<forall>j < a. \<not> P ([i ..< n] ! j))"
      by blast
  qed
  finally show ?thesis .
qed

lemma find_upt_None:
  "List.find P [i ..< n] = None \<longleftrightarrow> (\<forall>j. i \<le> j \<and> j < n \<longrightarrow> \<not> P j)"
  by (auto simp: find_None_iff)

lemma indexOf_eq_iff:
  "indexOf b v i = int k \<longleftrightarrow>
     i \<le> k \<and> k < length b \<and> b ! k = v \<and> (\<forall>j. i \<le> j \<and> j < k \<longrightarrow> b ! j \<noteq> v)"
proof (cases "List.find (\<lambda>k. b ! k = v) [i ..< length b]")
  case None
  then have "indexOf b v i = - 1" by (simp add: indexOf_def)
  moreover from None have "\<forall>j. i \<le> j \<and> j < length b \<longrightarrow> b ! j \<noteq> v"
    by (simp add: find_upt_None)
  ultimately show ?thesis by auto
next
  case (Some k')
  then have e: "indexOf b v i = int k'" by (simp add: indexOf_def)
  from Some have f: "i \<le> k' \<and> k' < length b \<and> b ! k' = v \<and> (\<forall>j. i \<le> j \<and> j < k' \<longrightarrow> b ! j \<noteq> v)"
    by (simp add: find_upt_Some)
  show ?thesis
  proof
    assume "indexOf b v i = int k"
    with e have "k = k'" by simp
    with f show "i \<le> k \<and> k < length b \<and> b ! k = v \<and> (\<forall>j. i \<le> j \<and> j < k \<longrightarrow> b ! j \<noteq> v)"
      by simp
  next
    assume r: "i \<le> k \<and> k < length b \<and> b ! k = v \<and> (\<forall>j. i \<le> j \<and> j < k \<longrightarrow> b ! j \<noteq> v)"
    have "k = k'"
      by (rule first_unique [of i k "\<lambda>j. b ! j = v" k']) (use r f in auto)
    with e show "indexOf b v i = int k" by simp
  qed
qed

lemma indexOf_none_iff:
  "indexOf b v i = - 1 \<longleftrightarrow> (\<forall>j. i \<le> j \<and> j < length b \<longrightarrow> b ! j \<noteq> v)"
proof (cases "List.find (\<lambda>k. b ! k = v) [i ..< length b]")
  case None
  then have "indexOf b v i = - 1" by (simp add: indexOf_def)
  moreover from None have "\<forall>j. i \<le> j \<and> j < length b \<longrightarrow> b ! j \<noteq> v"
    by (simp add: find_upt_None)
  ultimately show ?thesis by simp
next
  case (Some k')
  then have e: "indexOf b v i = int k'" by (simp add: indexOf_def)
  from Some have f: "i \<le> k' \<and> k' < length b \<and> b ! k' = v"
    by (simp add: find_upt_Some)
  from e have "indexOf b v i \<noteq> - 1" by simp
  with f show ?thesis by blast
qed

lemma indexOf_append:
  assumes "v \<notin> set A"
  shows "indexOf (pre @ A @ v # rest) v (length pre) = int (length pre + length A)"
proof -
  have "(pre @ A @ v # rest) ! j \<noteq> v" if "length pre \<le> j" "j < length pre + length A" for j
  proof -
    have lt: "j - length pre < length A" using that by linarith
    have "(pre @ A @ v # rest) ! j = A ! (j - length pre)"
      using that lt by (simp add: nth_append)
    moreover have "A ! (j - length pre) \<in> set A" using lt by simp
    ultimately show ?thesis using assms by metis
  qed
  moreover have "(pre @ A @ v # rest) ! (length pre + length A) = v"
    by (simp add: nth_append)
  ultimately show ?thesis by (subst indexOf_eq_iff) auto
qed

lemma parenthLoop_eq_iff:
  "parenthLoop b i = int p \<longleftrightarrow>
     i \<le> p \<and> p < length b \<and> b ! p = CHAR_CODE_PARENTH \<and> isAlphaChar (readByte b (p + 1)) \<and>
     (\<forall>k. i \<le> k \<and> k < p \<longrightarrow> \<not> (b ! k = CHAR_CODE_PARENTH \<and> isAlphaChar (readByte b (k + 1))))"
proof (induction b i rule: parenthLoop.induct)
  case (1 b i)
  show ?case
  proof (cases "i < length b")
    case False
    then show ?thesis by (subst parenthLoop.simps) auto
  next
    case lt: True
    show ?thesis
    proof (cases "b ! i = CHAR_CODE_PARENTH \<and> isAlphaChar (readByte b (i + 1))")
      case True
      have "parenthLoop b i = int i" using True lt by (subst parenthLoop.simps) simp
      moreover have "(i \<le> p \<and> p < length b \<and> b ! p = CHAR_CODE_PARENTH \<and> isAlphaChar (readByte b (p + 1)) \<and>
     (\<forall>k. i \<le> k \<and> k < p \<longrightarrow> \<not> (b ! k = CHAR_CODE_PARENTH \<and> isAlphaChar (readByte b (k + 1))))) \<longleftrightarrow> p = i"
      proof
        assume l: "i \<le> p \<and> p < length b \<and> b ! p = CHAR_CODE_PARENTH \<and> isAlphaChar (readByte b (p + 1)) \<and>
     (\<forall>k. i \<le> k \<and> k < p \<longrightarrow> \<not> (b ! k = CHAR_CODE_PARENTH \<and> isAlphaChar (readByte b (k + 1))))"
        then have "\<not> i < p" using True by blast
        with l show "p = i" by simp
      next
        assume "p = i"
        with True lt show "i \<le> p \<and> p < length b \<and> b ! p = CHAR_CODE_PARENTH \<and> isAlphaChar (readByte b (p + 1)) \<and>
     (\<forall>k. i \<le> k \<and> k < p \<longrightarrow> \<not> (b ! k = CHAR_CODE_PARENTH \<and> isAlphaChar (readByte b (k + 1))))"
          by auto
      qed
      ultimately show ?thesis by auto
    next
      case False
      have "parenthLoop b i = parenthLoop b (i + 1)" using False lt by (subst parenthLoop.simps) auto
      moreover have "(i \<le> p \<and> p < length b \<and> b ! p = CHAR_CODE_PARENTH \<and> isAlphaChar (readByte b (p + 1)) \<and>
     (\<forall>k. i \<le> k \<and> k < p \<longrightarrow> \<not> (b ! k = CHAR_CODE_PARENTH \<and> isAlphaChar (readByte b (k + 1))))) \<longleftrightarrow>
       (i + 1 \<le> p \<and> p < length b \<and> b ! p = CHAR_CODE_PARENTH \<and> isAlphaChar (readByte b (p + 1)) \<and>
     (\<forall>k. i + 1 \<le> k \<and> k < p \<longrightarrow> \<not> (b ! k = CHAR_CODE_PARENTH \<and> isAlphaChar (readByte b (k + 1)))))"
        using False by (metis Suc_eq_plus1 Suc_leI le_neq_implies_less Suc_leD)
      ultimately show ?thesis using 1 [OF lt False] by simp
    qed
  qed
qed

lemma parenthLoop_none_iff:
  "parenthLoop b i = - 1 \<longleftrightarrow>
     (\<forall>k. i \<le> k \<and> k < length b \<longrightarrow> \<not> (b ! k = CHAR_CODE_PARENTH \<and> isAlphaChar (readByte b (k + 1))))"
proof (induction b i rule: parenthLoop.induct)
  case (1 b i)
  show ?case
  proof (cases "i < length b")
    case False
    then show ?thesis by (subst parenthLoop.simps) auto
  next
    case lt: True
    show ?thesis
    proof (cases "b ! i = CHAR_CODE_PARENTH \<and> isAlphaChar (readByte b (i + 1))")
      case True
      have "parenthLoop b i = int i" using True lt by (subst parenthLoop.simps) simp
      with True lt show ?thesis by auto
    next
      case False
      have "parenthLoop b i = parenthLoop b (i + 1)" using False lt by (subst parenthLoop.simps) auto
      moreover have "(\<forall>k. i \<le> k \<and> k < length b \<longrightarrow> \<not> (b ! k = CHAR_CODE_PARENTH \<and> isAlphaChar (readByte b (k + 1)))) \<longleftrightarrow>
        (\<forall>k. i + 1 \<le> k \<and> k < length b \<longrightarrow> \<not> (b ! k = CHAR_CODE_PARENTH \<and> isAlphaChar (readByte b (k + 1))))"
        using False by (metis Suc_eq_plus1 Suc_leI le_neq_implies_less Suc_leD)
      ultimately show ?thesis using 1 [OF lt False] by simp
    qed
  qed
qed

lemma parenthLoop_range: "parenthLoop b i = - 1 \<or> (\<exists>p. parenthLoop b i = int p)"
proof (induction b i rule: parenthLoop.induct)
  case (1 b i)
  then show ?case by (subst (1 2) parenthLoop.simps) auto
qed

section \<open>The writes of the patch phase\<close>

lemma labelBytes_storeByte_in:
  "k < length (labelBytes st) \<Longrightarrow>
   labelBytes (storeByte st (int k) v) = (labelBytes st)[k := v]"
  by (simp add: storeByte_def)

lemma writeLog_storeByte [simp]: "writeLog (storeByte st i v) = writeLog st @ [i]"
  by (simp add: storeByte_def)

lemma eraseLoop_spec:
  assumes "eraseLoop st i = (st', q)" "i \<le> length (labelBytes st)"
  shows "i \<le> q \<and> q \<le> length (labelBytes st) \<and>
         (q < length (labelBytes st) \<longrightarrow> labelBytes st ! q = CHAR_CODE_CLOSE_PARENTH) \<and>
         (\<forall>k. i \<le> k \<and> k < q \<longrightarrow> labelBytes st ! k \<noteq> CHAR_CODE_CLOSE_PARENTH) \<and>
         (\<forall>k < length (labelBytes st).
            labelBytes st' ! k = (if i \<le> k \<and> k < q then CHAR_CODE_SPACE else labelBytes st ! k)) \<and>
         writeLog st' = writeLog st @ map int [i ..< q]"
  using assms
proof (induction st i arbitrary: st' q rule: eraseLoop.induct)
  case (1 st i)
  let ?b = "labelBytes st"
  show ?case
  proof (cases "i < length ?b \<and> ?b ! i \<noteq> CHAR_CODE_CLOSE_PARENTH")
    case False
    with "1.prems" have "st' = st" "q = i"
      by (subst (asm) eraseLoop.simps, simp)+
    with False "1.prems"(2) show ?thesis by auto
  next
    case True
    let ?st1 = "storeByte st (int i) CHAR_CODE_SPACE"
    have b1: "labelBytes ?st1 = ?b[i := CHAR_CODE_SPACE]"
      using True by (simp add: labelBytes_storeByte_in)
    have e: "eraseLoop ?st1 (i + 1) = (st', q)"
      using "1.prems"(1) True by (subst (asm) eraseLoop.simps) simp
    have le: "i + 1 \<le> length (labelBytes ?st1)" using True by simp
    note ih0 = "1.IH" [OF True e le, unfolded b1 length_list_update writeLog_storeByte]
    have ih: "i + 1 \<le> q" "q \<le> length ?b"
      "q < length ?b \<longrightarrow> ?b[i := CHAR_CODE_SPACE] ! q = CHAR_CODE_CLOSE_PARENTH"
      "\<forall>k. i + 1 \<le> k \<and> k < q \<longrightarrow> ?b[i := CHAR_CODE_SPACE] ! k \<noteq> CHAR_CODE_CLOSE_PARENTH"
      "\<forall>k < length ?b. labelBytes st' ! k =
          (if i + 1 \<le> k \<and> k < q then CHAR_CODE_SPACE else ?b[i := CHAR_CODE_SPACE] ! k)"
      "writeLog st' = (writeLog st @ [int i]) @ map int [i + 1 ..< q]"
      using ih0 by blast+
    have c1: "i \<le> q \<and> q \<le> length ?b" using ih(1,2) by simp
    have c2: "q < length ?b \<longrightarrow> ?b ! q = CHAR_CODE_CLOSE_PARENTH"
      using ih(1,3) by (auto simp: nth_list_update)
    have c3: "\<forall>k. i \<le> k \<and> k < q \<longrightarrow> ?b ! k \<noteq> CHAR_CODE_CLOSE_PARENTH"
    proof (intro allI impI)
      fix k assume k: "i \<le> k \<and> k < q"
      show "?b ! k \<noteq> CHAR_CODE_CLOSE_PARENTH"
      proof (cases "k = i")
        case True
        with \<open>i < length ?b \<and> ?b ! i \<noteq> CHAR_CODE_CLOSE_PARENTH\<close> show ?thesis by simp
      next
        case False
        with k have "i + 1 \<le> k \<and> k < q" by simp
        with ih(4) have "?b[i := CHAR_CODE_SPACE] ! k \<noteq> CHAR_CODE_CLOSE_PARENTH" by blast
        with False show ?thesis by simp
      qed
    qed
    have c4: "\<forall>k < length ?b.
            labelBytes st' ! k = (if i \<le> k \<and> k < q then CHAR_CODE_SPACE else ?b ! k)"
    proof (intro allI impI)
      fix k assume k: "k < length ?b"
      with ih(5) have "labelBytes st' ! k =
          (if i + 1 \<le> k \<and> k < q then CHAR_CODE_SPACE else ?b[i := CHAR_CODE_SPACE] ! k)"
        by blast
      with True ih(1) show "labelBytes st' ! k = (if i \<le> k \<and> k < q then CHAR_CODE_SPACE else ?b ! k)"
        by (cases "k = i") (auto simp: nth_list_update)
    qed
    have "[i ..< q] = i # [i + 1 ..< q]" using ih(1) by (simp add: upt_conv_Cons)
    with ih(6) have c5: "writeLog st' = writeLog st @ map int [i ..< q]" by simp
    from c1 c2 c3 c4 c5 show ?thesis by blast
  qed
qed

lemma eraseParenth_none:
  "parenthLoop (labelBytes st) 0 = - 1 \<Longrightarrow> eraseParenth st = st"
  by (simp add: eraseParenth_def)

lemma eraseParenth_spec:
  assumes "parenthLoop (labelBytes st) 0 = int p"
  shows "\<exists>q. p < q \<and> q \<le> length (labelBytes st) \<and>
         (q < length (labelBytes st) \<longrightarrow> labelBytes st ! q = CHAR_CODE_CLOSE_PARENTH) \<and>
         (\<forall>k. p \<le> k \<and> k < q \<longrightarrow> labelBytes st ! k \<noteq> CHAR_CODE_CLOSE_PARENTH) \<and>
         (\<forall>k < length (labelBytes st).
            labelBytes (eraseParenth st) ! k =
              (if p \<le> k \<and> k \<le> q then CHAR_CODE_SPACE else labelBytes st ! k)) \<and>
         writeLog (eraseParenth st) =
           writeLog st @ map int [p ..< q] @ (if q < length (labelBytes st) then [int q] else [])"
proof -
  let ?b = "labelBytes st"
  from assms have p: "p < length ?b" "?b ! p = CHAR_CODE_PARENTH"
    by (simp_all add: parenthLoop_eq_iff)
  obtain st' q where e: "eraseLoop st p = (st', q)" by (cases "eraseLoop st p")
  from eraseLoop_spec [OF e] p(1)
  have s: "p \<le> q" "q \<le> length ?b"
    "q < length ?b \<longrightarrow> ?b ! q = CHAR_CODE_CLOSE_PARENTH"
    "\<forall>k. p \<le> k \<and> k < q \<longrightarrow> ?b ! k \<noteq> CHAR_CODE_CLOSE_PARENTH"
    "\<forall>k < length ?b. labelBytes st' ! k = (if p \<le> k \<and> k < q then CHAR_CODE_SPACE else ?b ! k)"
    "writeLog st' = writeLog st @ map int [p ..< q]"
    by simp_all
  have len: "length (labelBytes st') = length ?b"
    using length_eraseLoop [of st p] e by simp
  have "q \<noteq> p"
  proof
    assume "q = p"
    with s(3) p have "CHAR_CODE_PARENTH = CHAR_CODE_CLOSE_PARENTH" by simp
    then show False by (simp add: char_code_eqs)
  qed
  with s(1) have pq: "p < q" by simp
  have ep: "eraseParenth st =
      (if q < length ?b then storeByte st' (int q) CHAR_CODE_SPACE else st')"
    using assms e len by (simp add: eraseParenth_def)
  have bytes: "\<forall>k < length ?b. labelBytes (eraseParenth st) ! k =
              (if p \<le> k \<and> k \<le> q then CHAR_CODE_SPACE else ?b ! k)"
  proof (intro allI impI)
    fix k assume k: "k < length ?b"
    with s(5) have k': "labelBytes st' ! k = (if p \<le> k \<and> k < q then CHAR_CODE_SPACE else ?b ! k)"
      by blast
    show "labelBytes (eraseParenth st) ! k =
              (if p \<le> k \<and> k \<le> q then CHAR_CODE_SPACE else ?b ! k)"
    proof (cases "q < length ?b")
      case True
      then have "labelBytes (eraseParenth st) = (labelBytes st')[q := CHAR_CODE_SPACE]"
        using ep len by (simp add: labelBytes_storeByte_in)
      with k k' len pq True show ?thesis
        by (cases "k = q") (auto simp: nth_list_update)
    next
      case False
      with ep have "eraseParenth st = st'" by simp
      with k k' False show ?thesis by auto
    qed
  qed
  have log: "writeLog (eraseParenth st) =
           writeLog st @ map int [p ..< q] @ (if q < length ?b then [int q] else [])"
    using ep s(6) by simp
  from pq s(2,3,4) bytes log show ?thesis by blast
qed

lemma replaceLoop_unfold:
  "replaceLoop st m =
     storeByte (storeByte (storeByte (storeByte (storeByte (storeByte st
       m 83) (m + 1) 119) (m + 2) 101) (m + 3) 100) (m + 4) 101) (m + 5) 110"
  by (simp add: replaceLoop_def REPLACEMENT_BYTES_eq upt_rec)

lemma writeLog_replaceLoop:
  "writeLog (replaceLoop st m) = writeLog st @ [m, m + 1, m + 2, m + 3, m + 4, m + 5]"
  by (simp add: replaceLoop_unfold)

lemma labelBytes_replaceLoop:
  assumes "m + 6 \<le> length (labelBytes st)"
  shows "labelBytes (replaceLoop st (int m)) =
     (labelBytes st)[m := 83, m + 1 := 119, m + 2 := 101, m + 3 := 100, m + 4 := 101, m + 5 := 110]"
proof -
  have s: "int m + 1 = int (m + 1)" "int m + 2 = int (m + 2)" "int m + 3 = int (m + 3)"
    "int m + 4 = int (m + 4)" "int m + 5 = int (m + 5)" by simp_all
  have lts: "m < length (labelBytes st)" "m + 1 < length (labelBytes st)"
    "m + 2 < length (labelBytes st)" "m + 3 < length (labelBytes st)"
    "m + 4 < length (labelBytes st)" "m + 5 < length (labelBytes st)"
    using assms by simp_all
  show ?thesis
    unfolding replaceLoop_unfold s
    by (simp only: labelBytes_storeByte_in length_storeByte length_list_update lts)
qed

lemma replace_append:
  assumes "length w = 6"
  shows "(A @ w @ post)[length A := 83, length A + 1 := 119, length A + 2 := 101,
            length A + 3 := 100, length A + 4 := 101, length A + 5 := 110]
         = A @ bytesOf ''Sweden'' @ post"
proof -
  from assms obtain a b c d e f where w: "w = [a, b, c, d, e, f]"
    by (auto simp: length_Suc_conv eval_nat_numeral)
  show ?thesis unfolding w by (simp add: list_update_append bytesOf_def charCodeAt0_def)
qed

section \<open>What a declared match looks like\<close>

lemma dropWhile_stop:
  "\<not> P y \<Longrightarrow> dropWhile P (u @ y # r) = dropWhile P u @ y # r"
  by (induction u) auto

lemma matchTail_stuck:
  assumes "71 \<notin> set ps"
  shows "matchTail (u @ 71 # r1) ps = matchTail (u @ 71 # r2) ps"
  using assms
proof (induction ps arbitrary: u)
  case Nil
  show ?case by simp
next
  case (Cons p ps)
  have aG: "\<not> nonAlpha 71" by (simp add: nonAlpha_iff)
  from Cons.prems have pG: "p \<noteq> 71" and ps: "71 \<notin> set ps" by auto
  show ?case
  proof (cases u)
    case Nil
    with pG aG show ?thesis by simp
  next
    case u: (Cons x u')
    show ?thesis
    proof (cases "p = CHAR_CODE_SPACE \<and> nonAlpha x")
      case True
      have d: "dropWhile nonAlpha (u' @ 71 # r) = dropWhile nonAlpha u' @ 71 # r" for r
        using aG by (rule dropWhile_stop)
      have ne: "dropWhile nonAlpha u' @ 71 # r \<noteq> []" for r by simp
      have "matchTail (u @ 71 # r) (p # ps) = matchTail (dropWhile nonAlpha u' @ 71 # r) ps" for r
        unfolding u using True d [of r] case_nonempty [OF ne [of r], of None "\<lambda>xs. matchTail xs ps"]
        by simp
      with Cons.IH [OF ps, of "dropWhile nonAlpha u'"] show ?thesis by simp
    next
      case False
      then have "matchTail (u @ 71 # r) (p # ps) =
          (if x = p then matchTail (u' @ 71 # r) ps else Some False)" for r
        unfolding u by auto
      with Cons.IH [OF ps, of u'] show ?thesis by simp
    qed
  qed
qed

lemma matchTail_before_G:
  assumes "u \<noteq> []"
  shows "matchTail (u @ 71 # r1) SEARCH_PATTERN_BYTES = matchTail (u @ 71 # r2) SEARCH_PATTERN_BYTES"
proof -
  obtain x u' where u: "u = x # u'" using assms by (cases u) auto
  let ?ps = "[117, 108, 102, 32, 111, 102, 32, 77, 101, 120, 105, 99, 111] :: byte list"
  have p: "SEARCH_PATTERN_BYTES = 71 # ?ps" by (simp add: SEARCH_PATTERN_BYTES_eq)
  have ns: "(71 :: byte) \<noteq> CHAR_CODE_SPACE" by (simp add: char_code_eqs)
  have "71 \<notin> set ?ps" by simp
  from matchTail_stuck [OF this, of u' r1 r2] show ?thesis
    unfolding p u using ns by simp
qed

lemma matchTail_not_G:
  "y \<noteq> 71 \<Longrightarrow> matchTail (y # ys) SEARCH_PATTERN_BYTES = Some False"
  by (simp add: SEARCH_PATTERN_BYTES_eq char_code_eqs)

lemma nonAlpha_not_letter:
  assumes "\<forall>c \<in> set g. nonAlpha c" "\<not> nonAlpha v"
  shows "v \<notin> set g"
  using assms by blast

lemma foundMatch_TrueD:
  assumes "foundMatch b s = Some True"
  shows "\<exists>pre g1 g2 post.
           b = pre @ bytesOf ''Gulf'' @ g1 @ bytesOf ''of'' @ g2 @
               bytesOf ''Mexico'' @ post
         \<and> length pre = s
         \<and> g1 \<noteq> [] \<and> g2 \<noteq> [] \<and> (\<forall>c \<in> set g1. nonAlpha c) \<and> (\<forall>c \<in> set g2. nonAlpha c)"
proof -
  from assms have m: "matchTail (drop s b) SEARCH_PATTERN_BYTES = Some True"
    by (simp add: foundMatch_matchTail)
  from matchTail_TrueD [OF m] obtain g1 g2 post where
    d: "drop s b = bytesOf ''Gulf'' @ g1 @ bytesOf ''of'' @ g2 @
               bytesOf ''Mexico'' @ post"
    and g: "g1 \<noteq> []" "g2 \<noteq> []" "\<forall>c \<in> set g1. nonAlpha c" "\<forall>c \<in> set g2. nonAlpha c"
    by blast
  from d g(1) have "drop s b \<noteq> []" by simp
  then have "s < length b" by simp
  then have "length (take s b) = s" by simp
  moreover have "b = take s b @ drop s b" by simp
  ultimately show ?thesis using d g by metis
qed


lemma foundMatch_phrase_Sweden:
  assumes "g1 \<noteq> []" "g2 \<noteq> []" "\<forall>c \<in> set g1. nonAlpha c" "\<forall>c \<in> set g2. nonAlpha c"
  shows "foundMatch (pre @ bytesOf ''Gulf'' @ g1 @ bytesOf ''of'' @ g2 @
               bytesOf ''Sweden'' @ post) (length pre) = Some False"
  by (simp add: foundMatch_matchTail matchTail_phrase_Sweden [OF assms])

lemma anchor_in_phrase:
  assumes "\<forall>c \<in> set g1. nonAlpha c" "\<forall>c \<in> set g2. nonAlpha c"
  shows "indexOf (pre @ bytesOf ''Gulf'' @ g1 @ bytesOf ''of'' @ g2 @
               bytesOf ''Mexico'' @ post) CHAR_CODE_CAPITAL_M (length pre)
         = int (length pre + 4 + length g1 + 2 + length g2)"
proof -
  let ?A = "bytesOf ''Gulf'' @ g1 @ bytesOf ''of'' @ g2"
  have aM: "\<not> nonAlpha 77" by (simp add: nonAlpha_iff)
  have "77 \<notin> set g1" "77 \<notin> set g2"
    using assms aM by blast+
  then have "77 \<notin> set ?A" by (simp add: bytesOf_def charCodeAt0_def)
  from indexOf_append [OF this, of pre "[101, 120, 105, 99, 111] @ post"]
  show ?thesis by (simp add: bytesOf_def charCodeAt0_def char_code_eqs add.assoc)
qed

section \<open>Supporting lemmas\<close>

subsection \<open>The replacement as a list equation\<close>

lemma update6_eq:
  assumes "m + 6 \<le> length xs"
  shows "xs[m := 83, m + 1 := 119, m + 2 := 101, m + 3 := 100, m + 4 := 101, m + 5 := 110]
         = take m xs @ bytesOf ''Sweden'' @ drop (m + 6) xs"
proof -
  let ?A = "take m xs" and ?w = "take 6 (drop m xs)" and ?p = "drop (m + 6) xs"
  have lA: "length ?A = m" and lw: "length ?w = 6" using assms by simp_all
  have "drop m xs = ?w @ drop 6 (drop m xs)" by (rule append_take_drop_id [symmetric])
  moreover have "drop 6 (drop m xs) = ?p" by (simp add: add.commute)
  ultimately have "drop m xs = ?w @ ?p" by (simp only:)
  then have xs: "xs = ?A @ ?w @ ?p" by (metis append_take_drop_id)
  from replace_append [OF lw, of ?A ?p]
  have "(?A @ ?w @ ?p)[m := 83, m + 1 := 119, m + 2 := 101, m + 3 := 100, m + 4 := 101, m + 5 := 110]
        = ?A @ bytesOf ''Sweden'' @ ?p"
    unfolding lA .
  then show ?thesis using xs by simp
qed

lemma patchMatch_at_anchor:
  assumes "indexOf (labelBytes st) CHAR_CODE_CAPITAL_M s = int m"
    and "m + 6 \<le> length (labelBytes st)"
  shows "labelBytes (patchMatch st s) =
           take m (labelBytes (eraseParenth st)) @ bytesOf ''Sweden'' @
           drop (m + 6) (labelBytes (eraseParenth st))"
    and "writeLog (patchMatch st s) =
           writeLog (eraseParenth st) @ [int m, int m + 1, int m + 2, int m + 3, int m + 4, int m + 5]"
proof -
  have len: "m + 6 \<le> length (labelBytes (eraseParenth st))" using assms(2) by simp
  have pm: "patchMatch st s = replaceLoop (eraseParenth st) (int m)"
    using assms(1) by (simp add: patchMatch_def)
  show "labelBytes (patchMatch st s) =
           take m (labelBytes (eraseParenth st)) @ bytesOf ''Sweden'' @
           drop (m + 6) (labelBytes (eraseParenth st))"
    unfolding pm labelBytes_replaceLoop [OF len] by (rule update6_eq [OF len])
  show "writeLog (patchMatch st s) =
           writeLog (eraseParenth st) @ [int m, int m + 1, int m + 2, int m + 3, int m + 4, int m + 5]"
    unfolding pm by (rule writeLog_replaceLoop)
qed

lemma take6_Sweden:
  "length A = m \<Longrightarrow> take 6 (drop m (A @ bytesOf ''Sweden'' @ post)) = bytesOf ''Sweden''"
  by (simp add: bytesOf_def)

subsection \<open>Single steps of the matcher\<close>

lemma alpha_not_space: "isAlphaChar (Some x) \<Longrightarrow> x \<noteq> CHAR_CODE_SPACE"
  by (auto simp: isAlphaChar_def char_code_eqs)

lemma foundMatch_past_end: "length b \<le> i \<Longrightarrow> foundMatch b i = Some False"
  by (simp add: foundMatch_def SEARCH_PATTERN_BYTES_eq)

lemma patternLoop_gap_on_alpha:
  assumes "s + off < length b" "isAlphaChar (Some (b ! (s + off)))"
  shows "patternLoop b s off (CHAR_CODE_SPACE # ps) = Some False"
  using assms alpha_not_space [OF assms(2)] by (simp add: Let_def)

lemma patternLoop_gap_needs_one:
  assumes "patternLoop b s off (CHAR_CODE_SPACE # ps) = Some True"
  shows "s + off < length b \<and> \<not> isAlphaChar (Some (b ! (s + off)))"
proof -
  have lt: "s + off < length b"
    using assms by (cases "s + off < length b") simp_all
  moreover have "\<not> isAlphaChar (Some (b ! (s + off)))"
    using assms patternLoop_gap_on_alpha [OF lt] by auto
  ultimately show ?thesis by simp
qed

subsection \<open>Single steps of the scan\<close>

text \<open>
  The three ways one iteration of the outer loop goes, and what follows for a
  stretch of start indices at which no match is declared.
\<close>

lemma scanLoop_end: "length (labelBytes st) \<le> k \<Longrightarrow> scanLoop st k = Some st"
  by (subst scanLoop.simps) simp

lemma scanLoop_no_match:
  "k < length (labelBytes st) \<Longrightarrow> foundMatch (labelBytes st) k = Some False \<Longrightarrow>
   scanLoop st k = scanLoop st (k + 1)"
  by (subst scanLoop.simps) simp


lemma scanLoop_hang:
  "k < length (labelBytes st) \<Longrightarrow> foundMatch (labelBytes st) k = None \<Longrightarrow>
   scanLoop st k = None"
  by (subst scanLoop.simps) simp

lemma scanLoop_skip:
  assumes "\<forall>j. k \<le> j \<and> j < k' \<longrightarrow> foundMatch (labelBytes st) j = Some False"
    and "k \<le> k'" and "k' \<le> length (labelBytes st)"
  shows "scanLoop st k = scanLoop st k'"
  using assms
proof (induction "k' - k" arbitrary: k)
  case 0
  then show ?case by simp
next
  case (Suc d)
  then have lt: "k < k'" by simp
  with Suc.prems have f: "foundMatch (labelBytes st) k = Some False"
    and kl: "k < length (labelBytes st)" by auto
  have "scanLoop st (k + 1) = scanLoop st k'"
    using Suc.hyps(2) Suc.prems lt by (intro Suc.hyps(1)) auto
  with scanLoop_no_match [OF kl f] show ?case by simp
qed

lemma scanLoop_unchanged:
  assumes "scanLoop st k = Some st'"
    and "\<forall>j. k \<le> j \<and> j < length (labelBytes st) \<longrightarrow> foundMatch (labelBytes st) j \<noteq> Some True"
  shows "st' = st"
  using assms
proof (induction st k rule: scanLoop.induct)
  case (1 st k)
  show ?case
  proof (cases "k < length (labelBytes st)")
    case False
    with "1.prems"(1) show ?thesis by (simp add: scanLoop_end)
  next
    case True
    from "1.prems"(2) True have nt: "foundMatch (labelBytes st) k \<noteq> Some True" by simp
    show ?thesis
    proof (cases "foundMatch (labelBytes st) k")
      case None
      with "1.prems"(1) True show ?thesis by (simp add: scanLoop_hang)
    next
      case (Some found)
      with nt have f: "foundMatch (labelBytes st) k = Some False" by simp
      then have nf: "\<not> False" "(if False then patchMatch st k else st) = st" by simp_all
      from "1.prems"(1) scanLoop_no_match [OF True f]
      have s: "scanLoop (if False then patchMatch st k else st) (k + 1) = Some st'" by simp
      have "st' = (if False then patchMatch st k else st)"
        by (rule "1.IH" [OF True f s]) (use "1.prems"(2) in simp)
      then show ?thesis by simp
    qed
  qed
qed

subsection \<open>The write log\<close>

text \<open>
  A property of write logs, used in the proofs only: every logged index is an
  index of an array of length \<open>n\<close>.
\<close>

definition inBounds :: "nat \<Rightarrow> int list \<Rightarrow> bool" where
  "inBounds n ws = list_all (\<lambda>i. 0 \<le> i \<and> i < int n) ws"

lemma inBounds_append [simp]: "inBounds n (xs @ ys) \<longleftrightarrow> inBounds n xs \<and> inBounds n ys"
  by (simp add: inBounds_def)

lemma inBounds_Nil [simp]: "inBounds n []"
  by (simp add: inBounds_def)

lemma inBounds_upt: "q \<le> n \<Longrightarrow> inBounds n (map int [p ..< q])"
  by (auto simp: inBounds_def list_all_iff)

lemma eraseParenth_log:
  "\<exists>ws. writeLog (eraseParenth st) = writeLog st @ ws \<and> inBounds (length (labelBytes st)) ws"
proof (cases "parenthLoop (labelBytes st) 0 = - 1")
  case True
  then show ?thesis by (simp add: eraseParenth_none)
next
  case False
  with parenthLoop_range [of "labelBytes st" 0] obtain p where
    "parenthLoop (labelBytes st) 0 = int p" by blast
  from eraseParenth_spec [OF this] obtain q where
    q: "q \<le> length (labelBytes st)"
    and w: "writeLog (eraseParenth st) =
           writeLog st @ map int [p ..< q] @ (if q < length (labelBytes st) then [int q] else [])"
    by blast
  have "inBounds (length (labelBytes st))
          (map int [p ..< q] @ (if q < length (labelBytes st) then [int q] else []))"
    using q by (simp add: inBounds_upt) (simp add: inBounds_def)
  with w show ?thesis by blast
qed

lemma patchMatch_log:
  assumes "foundMatch (labelBytes st) k = Some True"
  shows "\<exists>ws. writeLog (patchMatch st k) = writeLog st @ ws \<and> inBounds (length (labelBytes st)) ws"
proof -
  from foundMatch_TrueD [OF assms] obtain pre g1 g2 post where
    b: "labelBytes st =
             pre @ bytesOf ''Gulf'' @ g1 @ bytesOf ''of'' @ g2 @ bytesOf ''Mexico'' @ post"
    and i: "length pre = k"
    and g: "\<forall>c \<in> set g1. nonAlpha c" "\<forall>c \<in> set g2. nonAlpha c"
    by blast
  let ?m = "length pre + 4 + length g1 + 2 + length g2"
  have ix: "indexOf (labelBytes st) CHAR_CODE_CAPITAL_M k = int ?m"
    unfolding b i [symmetric] by (rule anchor_in_phrase [OF g])
  have len: "?m + 6 \<le> length (labelBytes st)"
    unfolding b by (simp add: bytesOf_def)
  from eraseParenth_log [of st] obtain ws where
    e: "writeLog (eraseParenth st) = writeLog st @ ws" and wb: "inBounds (length (labelBytes st)) ws"
    by blast
  let ?ms = "[int ?m, int ?m + 1, int ?m + 2, int ?m + 3, int ?m + 4, int ?m + 5]"
  have "inBounds (length (labelBytes st)) ?ms"
    using len by (simp add: inBounds_def)
  with wb have "inBounds (length (labelBytes st)) (ws @ ?ms)" by simp
  moreover have "writeLog (patchMatch st k) = writeLog st @ ws @ ?ms"
    unfolding patchMatch_at_anchor(2) [OF ix len] e by simp
  ultimately show ?thesis by blast
qed

lemma scanLoop_log:
  assumes "scanLoop st k = Some st'"
  shows "length (labelBytes st') = length (labelBytes st) \<and>
         (\<exists>ws. writeLog st' = writeLog st @ ws \<and> inBounds (length (labelBytes st)) ws)"
  using assms
proof (induction st k rule: scanLoop.induct)
  case (1 st k)
  show ?case
  proof (cases "k < length (labelBytes st)")
    case False
    with "1.prems" have "st' = st" by (simp add: scanLoop_end)
    then show ?thesis by simp
  next
    case True
    show ?thesis
    proof (cases "foundMatch (labelBytes st) k")
      case None
      with "1.prems" True show ?thesis by (simp add: scanLoop_hang)
    next
      case (Some found)
      let ?st1 = "if found then patchMatch st k else st"
      have s: "scanLoop ?st1 (k + 1) = Some st'"
        using "1.prems" True Some by (subst (asm) scanLoop.simps) simp
      from "1.IH" [OF True Some s]
      obtain ws where
        l: "length (labelBytes st') = length (labelBytes ?st1)"
        and w: "writeLog st' = writeLog ?st1 @ ws"
        and wb: "inBounds (length (labelBytes ?st1)) ws"
        by blast
      have l1: "length (labelBytes ?st1) = length (labelBytes st)" by simp
      obtain vs where v: "writeLog ?st1 = writeLog st @ vs"
        and vb: "inBounds (length (labelBytes st)) vs"
      proof (cases found)
        case True
        with Some patchMatch_log [of st k] that show ?thesis by auto
      next
        case False
        with that [of "[]"] show ?thesis by simp
      qed
      have "writeLog st' = writeLog st @ (vs @ ws)" using w v by simp
      moreover have "inBounds (length (labelBytes st)) (vs @ ws)"
        using wb vb l1 by simp
      ultimately show ?thesis using l l1 by metis
    qed
  qed
qed

subsection \<open>The matcher on an array after a replacement\<close>

text \<open>
  Without a parenthetical the patch phase only turns \<^verbatim>\<open>Mexico\<close> into \<^verbatim>\<open>Sweden\<close>.
  The matcher then answers at every other start index as before, and "no match"
  at the index just patched: no match starts inside the span of another, and a
  candidate that starts before a \<^verbatim>\<open>G\<close> never gets past it.
\<close>

lemma indexOf_drop_cong:
  assumes "length b = length b'" "drop j b = drop j b'"
  shows "indexOf b v j = indexOf b' v j"
proof -
  have n: "b ! k = b' ! k" if "j \<le> k" "k < length b" for k
  proof -
    have "b ! k = drop j b ! (k - j)" using that by simp
    also have "\<dots> = drop j b' ! (k - j)" by (simp only: assms(2))
    also have "\<dots> = b' ! k" using that assms(1) by simp
    finally show ?thesis .
  qed
  have f: "List.find (\<lambda>k. b ! k = v) [j ..< length b] = List.find (\<lambda>k. b' ! k = v) [j ..< length b]"
    by (rule find_cong) (auto simp: n)
  show ?thesis unfolding indexOf_def f assms(1) [symmetric] ..
qed

lemma drop_app_ge: "length X \<le> j \<Longrightarrow> drop j (X @ Y) = drop (j - length X) Y"
  by simp

lemma drop_same_suffix:
  "length X = length X' \<Longrightarrow> length X \<le> j \<Longrightarrow> drop j (X @ post) = drop j (X' @ post)"
  by simp

lemma drop_app_lt: "j < length X \<Longrightarrow> drop j (X @ Y) = drop j X @ Y"
  by simp

lemma matchTail_inside:
  assumes "71 \<notin> set V" "length P \<le> j" "j - length P < length V"
  shows "matchTail (drop j (P @ V @ post)) SEARCH_PATTERN_BYTES = Some False"
proof -
  let ?i = "j - length P"
  have "drop j (P @ V @ post) = drop ?i (V @ post)"
    using assms(2) by (rule drop_app_ge)
  also have "\<dots> = drop ?i V @ post" using assms(3) by (rule drop_app_lt)
  also have "drop ?i V = V ! ?i # drop (Suc ?i) V"
    using assms(3) by (simp only: Cons_nth_drop_Suc)
  finally have d: "drop j (P @ V @ post) = V ! ?i # (drop (Suc ?i) V @ post)"
    by simp
  have "V ! ?i \<in> set V" using assms(3) by (rule nth_mem)
  with assms(1) have "V ! ?i \<noteq> 71" by metis
  then show ?thesis unfolding d by (rule matchTail_not_G)
qed

lemma foundMatch_inside_phrase:
  assumes "\<forall>c \<in> set g1. nonAlpha c" "\<forall>c \<in> set g2. nonAlpha c" "71 \<notin> set w"
    and "length pre < j"
    and "j < length pre + length (bytesOf ''Gulf'' @ g1 @ bytesOf ''of'' @ g2 @ w)"
  shows "foundMatch (pre @ bytesOf ''Gulf'' @ g1 @ bytesOf ''of'' @ g2 @ w @ post) j = Some False"
proof -
  define V where "V = [117, 108, 102] @ g1 @ bytesOf ''of'' @ g2 @ w"
  define P where "P = pre @ [71]"
  have aG: "\<not> nonAlpha 71" by (simp add: nonAlpha_iff)
  have "71 \<notin> set g1" "71 \<notin> set g2" using assms(1,2) aG by blast+
  with assms(3) have nV: "71 \<notin> set V" by (simp add: V_def bytesOf_def charCodeAt0_def)
  have e: "pre @ bytesOf ''Gulf'' @ g1 @ bytesOf ''of'' @ g2 @ w @ post = P @ V @ post"
    by (simp add: V_def P_def bytesOf_def charCodeAt0_def)
  have lV: "length (bytesOf ''Gulf'' @ g1 @ bytesOf ''of'' @ g2 @ w) = 1 + length V"
    by (simp add: V_def bytesOf_def)
  have lP: "length P = length pre + 1" by (simp add: P_def)
  have i: "j - length P < length V" and j: "length P \<le> j"
    using assms(4,5) unfolding lV lP by simp_all
  show ?thesis
    unfolding e foundMatch_matchTail by (rule matchTail_inside [OF nV j i])
qed

lemma foundMatch_after_replace:
  assumes "g1 \<noteq> []" "g2 \<noteq> []" "\<forall>c \<in> set g1. nonAlpha c" "\<forall>c \<in> set g2. nonAlpha c"
  shows "foundMatch (pre @ bytesOf ''Gulf'' @ g1 @ bytesOf ''of'' @ g2 @ bytesOf ''Sweden'' @ post) j
       = (if j = length pre then Some False
          else foundMatch (pre @ bytesOf ''Gulf'' @ g1 @ bytesOf ''of'' @ g2 @ bytesOf ''Mexico'' @ post) j)"
proof -
  let ?A = "bytesOf ''Gulf'' @ g1 @ bytesOf ''of'' @ g2"
  let ?b = "pre @ ?A @ bytesOf ''Mexico'' @ post"
  let ?b' = "pre @ ?A @ bytesOf ''Sweden'' @ post"
  have nM: "71 \<notin> set (bytesOf ''Mexico'')" and nS: "71 \<notin> set (bytesOf ''Sweden'')"
    by (simp_all add: bytesOf_def charCodeAt0_def)
  have lw: "length (?A @ bytesOf ''Mexico'') = length (?A @ bytesOf ''Sweden'')"
    by (simp add: bytesOf_def)
  consider "j < length pre" | "j = length pre"
    | "length pre < j" "j < length pre + length (?A @ bytesOf ''Mexico'')"
    | "length pre + length (?A @ bytesOf ''Mexico'') \<le> j"
    by linarith
  then show ?thesis
  proof cases
    case 1
    then have ne: "drop j pre \<noteq> []" by simp
    have G: "bytesOf ''Gulf'' @ xs = 71 # [117, 108, 102] @ xs" for xs
      by (simp add: bytesOf_def charCodeAt0_def)
    have "drop j ?b = drop j pre @ 71 # [117, 108, 102] @ g1 @ bytesOf ''of'' @ g2 @ bytesOf ''Mexico'' @ post"
      using 1 by (simp add: G)
    moreover have "drop j ?b' = drop j pre @ 71 # [117, 108, 102] @ g1 @ bytesOf ''of'' @ g2 @ bytesOf ''Sweden'' @ post"
      using 1 by (simp add: G)
    ultimately have "matchTail (drop j ?b') SEARCH_PATTERN_BYTES = matchTail (drop j ?b) SEARCH_PATTERN_BYTES"
      using matchTail_before_G [OF ne] by simp
    with 1 show ?thesis by (simp add: foundMatch_matchTail)
  next
    case 2
    then show ?thesis using foundMatch_phrase_Sweden [OF assms] by simp
  next
    case 3
    have "foundMatch ?b j = Some False"
      using foundMatch_inside_phrase [OF assms(3,4) nM, of pre j post] 3 by simp
    moreover have "foundMatch ?b' j = Some False"
      using foundMatch_inside_phrase [OF assms(3,4) nS, of pre j post] 3 lw by simp
    ultimately show ?thesis using 3 by simp
  next
    case 4
    have l: "length (pre @ ?A @ bytesOf ''Sweden'') = length (pre @ ?A @ bytesOf ''Mexico'')"
      by (simp add: bytesOf_def)
    have le: "length (pre @ ?A @ bytesOf ''Sweden'') \<le> j"
      unfolding l using 4 by simp
    have "drop j ((pre @ ?A @ bytesOf ''Sweden'') @ post) = drop j ((pre @ ?A @ bytesOf ''Mexico'') @ post)"
      using l le by (rule drop_same_suffix)
    then have "drop j ?b' = drop j ?b" by simp
    moreover have "j \<noteq> length pre" using 4 by (simp add: bytesOf_def)
    ultimately show ?thesis by (simp add: foundMatch_matchTail)
  qed
qed

lemma nth_mid:
  assumes "length w = length w'" "k < length (X @ w @ post)"
  shows "(k < length X \<and> (X @ w @ post) ! k = X ! k \<and> (X @ w' @ post) ! k = X ! k)
       \<or> (length X \<le> k \<and> k - length X < length w
           \<and> (X @ w @ post) ! k = w ! (k - length X) \<and> (X @ w' @ post) ! k = w' ! (k - length X))
       \<or> (length X + length w \<le> k
           \<and> (X @ w @ post) ! k = (X @ w' @ post) ! k)"
  using assms by (auto simp: nth_append)

lemma parenth_after_replace:
  assumes "parenthLoop (X @ bytesOf ''Mexico'' @ post) 0 = - 1"
  shows "parenthLoop (X @ bytesOf ''Sweden'' @ post) 0 = - 1"
proof -
  let ?b = "X @ bytesOf ''Mexico'' @ post" and ?b' = "X @ bytesOf ''Sweden'' @ post"
  have l: "length (bytesOf ''Mexico'') = length (bytesOf ''Sweden'')" by (simp add: bytesOf_def)
  have len: "length ?b' = length ?b" by (simp add: bytesOf_def)
  have S: "\<forall>c \<in> set (bytesOf ''Sweden''). c \<noteq> CHAR_CODE_PARENTH"
    by (simp add: bytesOf_def charCodeAt0_def char_code_eqs)
  have M: "\<forall>c \<in> set (bytesOf ''Mexico''). isAlphaChar (Some c)"
    by (simp add: bytesOf_def charCodeAt0_def isAlphaChar_def)
  have p: "?b ! k = CHAR_CODE_PARENTH" if "k < length ?b" "?b' ! k = CHAR_CODE_PARENTH" for k
  proof -
    from nth_mid [OF l that(1)]
    consider "?b ! k = X ! k" "?b' ! k = X ! k"
      | "k - length X < length (bytesOf ''Sweden'')" "?b' ! k = bytesOf ''Sweden'' ! (k - length X)"
      | "?b ! k = ?b' ! k"
      using l by metis
    then show ?thesis
    proof cases
      case 1
      with that show ?thesis by simp
    next
      case 2
      then have "?b' ! k \<in> set (bytesOf ''Sweden'')" by simp
      with S that(2) show ?thesis by metis
    next
      case 3
      with that show ?thesis by simp
    qed
  qed
  have a: "isAlphaChar (readByte ?b k)" if "isAlphaChar (readByte ?b' k)" for k
  proof (cases "k < length ?b")
    case False
    with that len show ?thesis by (simp add: readByte_def isAlphaChar_def)
  next
    case True
    from nth_mid [OF l True]
    consider "?b ! k = X ! k" "?b' ! k = X ! k"
      | "k - length X < length (bytesOf ''Mexico'')" "?b ! k = bytesOf ''Mexico'' ! (k - length X)"
      | "?b ! k = ?b' ! k"
      by metis
    then show ?thesis
    proof cases
      case 1
      with that True len show ?thesis by (simp add: readByte_def)
    next
      case 2
      then have "?b ! k \<in> set (bytesOf ''Mexico'')" by simp
      with M have "isAlphaChar (Some (?b ! k))" by blast
      with True show ?thesis by (simp add: readByte_def)
    next
      case 3
      with that True len show ?thesis by (simp add: readByte_def)
    qed
  qed
  from assms have n: "\<forall>k. k < length ?b \<longrightarrow>
      \<not> (?b ! k = CHAR_CODE_PARENTH \<and> isAlphaChar (readByte ?b (k + 1)))"
    unfolding parenthLoop_none_iff by simp
  have "\<not> (?b' ! k = CHAR_CODE_PARENTH \<and> isAlphaChar (readByte ?b' (k + 1)))"
    if "k < length ?b'" for k
  proof
    assume h: "?b' ! k = CHAR_CODE_PARENTH \<and> isAlphaChar (readByte ?b' (k + 1))"
    from that len have k: "k < length ?b" by simp
    from p [OF k] h have "?b ! k = CHAR_CODE_PARENTH" by blast
    moreover from a h have "isAlphaChar (readByte ?b (k + 1))" by blast
    ultimately show False using n k by blast
  qed
  then show ?thesis unfolding parenthLoop_none_iff by simp
qed

lemma patchMatch_noparen:
  assumes "parenthLoop (labelBytes st) 0 = - 1"
    and "labelBytes st =
           pre @ bytesOf ''Gulf'' @ g1 @ bytesOf ''of'' @ g2 @ bytesOf ''Mexico'' @ post"
    and "\<forall>c \<in> set g1. nonAlpha c" "\<forall>c \<in> set g2. nonAlpha c"
  shows "labelBytes (patchMatch st (length pre)) =
           pre @ bytesOf ''Gulf'' @ g1 @ bytesOf ''of'' @ g2 @ bytesOf ''Sweden'' @ post"
proof -
  define X where "X = pre @ bytesOf ''Gulf'' @ g1 @ bytesOf ''of'' @ g2"
  let ?m = "length pre + 4 + length g1 + 2 + length g2"
  have lX: "length X = ?m" by (simp add: X_def bytesOf_def)
  have b: "labelBytes st = X @ bytesOf ''Mexico'' @ post" by (simp add: X_def assms(2))
  have ix: "indexOf (labelBytes st) CHAR_CODE_CAPITAL_M (length pre) = int ?m"
    unfolding assms(2) by (rule anchor_in_phrase [OF assms(3,4)])
  have len: "?m + 6 \<le> length (labelBytes st)"
    unfolding assms(2) by (simp add: bytesOf_def)
  have e: "eraseParenth st = st" using assms(1) by (rule eraseParenth_none)
  have t: "take ?m (X @ bytesOf ''Mexico'' @ post) = X"
    using lX by simp
  have "drop (?m + 6) (X @ bytesOf ''Mexico'' @ post) = drop 6 (bytesOf ''Mexico'' @ post)"
    using lX by simp
  then have d: "drop (?m + 6) (X @ bytesOf ''Mexico'' @ post) = post"
    by (simp add: bytesOf_def)
  have "labelBytes (patchMatch st (length pre)) = X @ bytesOf ''Sweden'' @ post"
    unfolding patchMatch_at_anchor(1) [OF ix len] e b t d ..
  then show ?thesis by (simp add: X_def)
qed

subsection \<open>The scan on an array without a parenthetical\<close>

text \<open>
  What a returning scan leaves behind when nothing is erased: the bytes before
  the current index are untouched, every match from the current index on has
  its \<^verbatim>\<open>Mexico\<close> overwritten, and the matcher finds no match in the result where
  it found one before.
\<close>

lemma take_from_Suc: "take (k + 1) xs = take (k + 1) ys \<Longrightarrow> take k xs = take k ys"
proof -
  assume a: "take (k + 1) xs = take (k + 1) ys"
  have "take k xs = take k (take (k + 1) xs)" by (simp add: min_def)
  also have "\<dots> = take k (take (k + 1) ys)" by (simp only: a)
  also have "\<dots> = take k ys" by (simp add: min_def)
  finally show ?thesis .
qed

lemma scanLoop_frame:
  assumes "scanLoop st k = Some st'" "parenthLoop (labelBytes st) 0 = - 1"
  shows "take k (labelBytes st') = take k (labelBytes st) \<and> parenthLoop (labelBytes st') 0 = - 1"
  using assms
proof (induction st k arbitrary: st' rule: scanLoop.induct)
  case (1 st k)
  show ?case
  proof (cases "k < length (labelBytes st)")
    case False
    with "1.prems" have "st' = st" by (simp add: scanLoop_end)
    with "1.prems"(2) show ?thesis by simp
  next
    case lt: True
    show ?thesis
    proof (cases "foundMatch (labelBytes st) k")
      case None
      with "1.prems" lt show ?thesis by (simp add: scanLoop_hang)
    next
      case (Some found)
      let ?st1 = "if found then patchMatch st k else st"
      have s: "scanLoop ?st1 (k + 1) = Some st'"
        using "1.prems"(1) lt Some by (subst (asm) scanLoop.simps) simp
      show ?thesis
      proof (cases found)
        case False
        with "1.IH" [OF lt Some s] "1.prems"(2)
        have "take (k + 1) (labelBytes st') = take (k + 1) (labelBytes st)"
          and np: "parenthLoop (labelBytes st') 0 = - 1" by simp_all
        then show ?thesis using take_from_Suc by blast
      next
        case True
        with Some have fm: "foundMatch (labelBytes st) k = Some True" by simp
        from foundMatch_TrueD [OF fm] obtain pre g1 g2 post where
          b: "labelBytes st =
                 pre @ bytesOf ''Gulf'' @ g1 @ bytesOf ''of'' @ g2 @ bytesOf ''Mexico'' @ post"
          and i: "length pre = k"
          and g: "\<forall>c \<in> set g1. nonAlpha c" "\<forall>c \<in> set g2. nonAlpha c"
          by blast
        have b1: "labelBytes (patchMatch st k) =
                 pre @ bytesOf ''Gulf'' @ g1 @ bytesOf ''of'' @ g2 @ bytesOf ''Sweden'' @ post"
          using patchMatch_noparen [OF "1.prems"(2) b g] i by simp
        have "parenthLoop ((pre @ bytesOf ''Gulf'' @ g1 @ bytesOf ''of'' @ g2) @
                 bytesOf ''Sweden'' @ post) 0 = - 1"
          by (rule parenth_after_replace) (use "1.prems"(2) b in simp)
        then have np1: "parenthLoop (labelBytes ?st1) 0 = - 1"
          using True b1 by simp
        from "1.IH" [OF lt Some s np1] True
        have t: "take (k + 1) (labelBytes st') = take (k + 1) (labelBytes (patchMatch st k))"
          and np: "parenthLoop (labelBytes st') 0 = - 1" by simp_all
        have "take k (labelBytes (patchMatch st k)) = take k (labelBytes st)"
          unfolding b b1 using i by simp
        with take_from_Suc [OF t] np show ?thesis by simp
      qed
    qed
  qed
qed

lemma take6_of_take:
  assumes "take (m + 6) r = X @ w" "length X = m" "length w = 6"
  shows "take 6 (drop m r) = w"
proof -
  have "take 6 (drop m r) = drop m (take (m + 6) r)" by (simp add: drop_take)
  also have "\<dots> = w" unfolding assms(1) using assms(2) by simp
  finally show ?thesis .
qed

lemma scanLoop_noparen:
  assumes "scanLoop st k = Some st'" "parenthLoop (labelBytes st) 0 = - 1"
  shows "(\<forall>j. foundMatch (labelBytes st') j =
            (if k \<le> j \<and> foundMatch (labelBytes st) j = Some True then Some False
             else foundMatch (labelBytes st) j))
       \<and> (\<forall>j. k \<le> j \<and> j < length (labelBytes st) \<longrightarrow> foundMatch (labelBytes st) j \<noteq> None)
       \<and> (\<forall>j. k \<le> j \<and> foundMatch (labelBytes st) j = Some True \<longrightarrow>
            (\<exists>m. indexOf (labelBytes st) CHAR_CODE_CAPITAL_M j = int m
                \<and> take 6 (drop m (labelBytes st')) = bytesOf ''Sweden''))"
  using assms
proof (induction st k arbitrary: st' rule: scanLoop.induct)
  case (1 st k)
  let ?c = "labelBytes st" and ?r = "labelBytes st'"
  show ?case
  proof (cases "k < length ?c")
    case False
    with "1.prems" have e: "st' = st" by (simp add: scanLoop_end)
    have "foundMatch ?c j = Some False" if "k \<le> j" for j
      using that False by (intro foundMatch_past_end) simp
    then show ?thesis unfolding e using False by auto
  next
    case lt: True
    show ?thesis
    proof (cases "foundMatch ?c k")
      case None
      with "1.prems" lt show ?thesis by (simp add: scanLoop_hang)
    next
      case (Some found)
      let ?st1 = "if found then patchMatch st k else st"
      have s: "scanLoop ?st1 (k + 1) = Some st'"
        using "1.prems"(1) lt Some by (subst (asm) scanLoop.simps) simp
      show ?thesis
      proof (cases found)
        case False
        with Some have fk: "foundMatch ?c k = Some False" by simp
        from "1.IH" [OF lt Some s] "1.prems"(2) False
        have ih1: "\<forall>j. foundMatch ?r j =
            (if k + 1 \<le> j \<and> foundMatch ?c j = Some True then Some False else foundMatch ?c j)"
          and ih2: "\<forall>j. k + 1 \<le> j \<and> j < length ?c \<longrightarrow> foundMatch ?c j \<noteq> None"
          and ih3: "\<forall>j. k + 1 \<le> j \<and> foundMatch ?c j = Some True \<longrightarrow>
            (\<exists>m. indexOf ?c CHAR_CODE_CAPITAL_M j = int m \<and> take 6 (drop m ?r) = bytesOf ''Sweden'')"
          by simp_all
        have c1: "foundMatch ?r j =
            (if k \<le> j \<and> foundMatch ?c j = Some True then Some False else foundMatch ?c j)" for j
        proof (cases "j = k")
          case True
          with ih1 fk show ?thesis by simp
        next
          case False
          then have "k + 1 \<le> j \<longleftrightarrow> k \<le> j" by linarith
          with ih1 show ?thesis by simp
        qed
        have c2: "foundMatch ?c j \<noteq> None" if "k \<le> j \<and> j < length ?c" for j
        proof (cases "j = k")
          case True
          with fk show ?thesis by simp
        next
          case False
          with that have "k + 1 \<le> j \<and> j < length ?c" by linarith
          with ih2 show ?thesis by blast
        qed
        have c3: "\<exists>m. indexOf ?c CHAR_CODE_CAPITAL_M j = int m \<and> take 6 (drop m ?r) = bytesOf ''Sweden''"
          if "k \<le> j \<and> foundMatch ?c j = Some True" for j
        proof -
          from that fk have "j \<noteq> k" by auto
          with that have "k + 1 \<le> j \<and> foundMatch ?c j = Some True" by simp
          with ih3 show ?thesis by blast
        qed
        from c1 c2 c3 show ?thesis by blast
      next
        case True
        with Some have fm: "foundMatch ?c k = Some True" by simp
        from foundMatch_TrueD [OF fm] obtain pre g1 g2 post where
          b: "?c = pre @ bytesOf ''Gulf'' @ g1 @ bytesOf ''of'' @ g2 @ bytesOf ''Mexico'' @ post"
          and i: "length pre = k"
          and ne: "g1 \<noteq> []" "g2 \<noteq> []"
          and g: "\<forall>c \<in> set g1. nonAlpha c" "\<forall>c \<in> set g2. nonAlpha c"
          by blast
        define A where "A = bytesOf ''Gulf'' @ g1 @ bytesOf ''of'' @ g2"
        define c1 where "c1 = labelBytes (patchMatch st k)"
        have bA: "?c = pre @ A @ bytesOf ''Mexico'' @ post" by (simp add: b A_def)
        have b1: "c1 = pre @ A @ bytesOf ''Sweden'' @ post"
          unfolding c1_def using patchMatch_noparen [OF "1.prems"(2) b g] i by (simp add: A_def)
        have lc1: "length c1 = length ?c" by (simp add: c1_def)
        have st1: "?st1 = patchMatch st k" using True by simp
        have "parenthLoop ((pre @ A) @ bytesOf ''Sweden'' @ post) 0 = - 1"
          by (rule parenth_after_replace) (use "1.prems"(2) bA in simp)
        then have np1: "parenthLoop c1 0 = - 1" by (simp add: b1)
        then have np1': "parenthLoop (labelBytes ?st1) 0 = - 1" by (simp add: st1 c1_def)
        from "1.IH" [OF lt Some s np1', unfolded st1, folded c1_def]
        have ih1: "\<forall>j. foundMatch ?r j =
            (if k + 1 \<le> j \<and> foundMatch c1 j = Some True then Some False else foundMatch c1 j)"
          and ih2: "\<forall>j. k + 1 \<le> j \<and> j < length c1 \<longrightarrow> foundMatch c1 j \<noteq> None"
          and ih3: "\<forall>j. k + 1 \<le> j \<and> foundMatch c1 j = Some True \<longrightarrow>
            (\<exists>m. indexOf c1 CHAR_CODE_CAPITAL_M j = int m \<and> take 6 (drop m ?r) = bytesOf ''Sweden'')"
          by blast+
        have R: "foundMatch c1 j = (if j = k then Some False else foundMatch ?c j)" for j
          unfolding b1 bA A_def i [symmetric] using foundMatch_after_replace [OF ne g] by simp
        have nM: "71 \<notin> set (bytesOf ''Mexico'')" and nS: "71 \<notin> set (bytesOf ''Sweden'')"
          by (simp_all add: bytesOf_def charCodeAt0_def)
        have inM: "foundMatch ?c j = Some False"
          if "k < j" "j < k + length (A @ bytesOf ''Mexico'')" for j
          unfolding b using foundMatch_inside_phrase [OF g nM, of pre j post] that i
          by (simp add: A_def)
        have inS: "foundMatch c1 j = Some False"
          if "k < j" "j < k + length (A @ bytesOf ''Sweden'')" for j
          unfolding b1 A_def using foundMatch_inside_phrase [OF g nS, of pre j post] that i
          by (simp add: A_def)
        have lw: "length (A @ bytesOf ''Mexico'') = length A + 6"
          "length (A @ bytesOf ''Sweden'') = length A + 6"
          by (simp_all add: bytesOf_def)
        have d1: "foundMatch ?r j =
            (if k \<le> j \<and> foundMatch ?c j = Some True then Some False else foundMatch ?c j)" for j
        proof (cases "j = k")
          case True
          with ih1 R fm show ?thesis by simp
        next
          case False
          then have "k + 1 \<le> j \<longleftrightarrow> k \<le> j" by linarith
          with ih1 R False show ?thesis by simp
        qed
        have d2: "foundMatch ?c j \<noteq> None" if "k \<le> j \<and> j < length ?c" for j
        proof (cases "j = k")
          case True
          with fm show ?thesis by simp
        next
          case False
          with that lc1 have "k + 1 \<le> j \<and> j < length c1" by linarith
          with ih2 have "foundMatch c1 j \<noteq> None" by blast
          with R False show ?thesis by simp
        qed
        have d3: "\<exists>m. indexOf ?c CHAR_CODE_CAPITAL_M j = int m \<and> take 6 (drop m ?r) = bytesOf ''Sweden''"
          if h: "k \<le> j \<and> foundMatch ?c j = Some True" for j
        proof (cases "j = k")
          case True
          let ?m = "length (pre @ A)"
          have ix: "indexOf ?c CHAR_CODE_CAPITAL_M k = int ?m"
            unfolding b i [symmetric] using anchor_in_phrase [OF g, of pre post]
            by (simp add: A_def bytesOf_def)
          have m6: "?m + 6 \<le> length c1" unfolding b1 by (simp add: bytesOf_def)
          have km: "k + 1 \<le> ?m + 6" using i by simp
          have "\<forall>j'. k + 1 \<le> j' \<and> j' < ?m + 6 \<longrightarrow> foundMatch (labelBytes (patchMatch st k)) j' = Some False"
            using inS lw i by (simp add: c1_def)
          then have "scanLoop (patchMatch st k) (k + 1) = scanLoop (patchMatch st k) (?m + 6)"
            using km m6 by (intro scanLoop_skip) (simp_all add: c1_def)
          with s st1 have s6: "scanLoop (patchMatch st k) (?m + 6) = Some st'" by simp
          from scanLoop_frame [OF s6] np1
          have "take (?m + 6) ?r = take (?m + 6) c1" by (simp add: c1_def)
          also have "\<dots> = (pre @ A) @ bytesOf ''Sweden''"
            unfolding b1 by (simp add: bytesOf_def)
          finally have "take 6 (drop ?m ?r) = bytesOf ''Sweden''"
            by (rule take6_of_take) (simp_all add: bytesOf_def)
          with ix True show ?thesis by blast
        next
          case False
          with h have kj: "k + 1 \<le> j" by simp
          from h R False have "foundMatch c1 j = Some True" by simp
          with ih3 kj obtain m where
            m: "indexOf c1 CHAR_CODE_CAPITAL_M j = int m" "take 6 (drop m ?r) = bytesOf ''Sweden''"
            by blast
          have "\<not> j < k + length (A @ bytesOf ''Mexico'')"
            using inM [of j] kj h by auto
          then have le: "length (pre @ A @ bytesOf ''Mexico'') \<le> j" using i by simp
          have l: "length (pre @ A @ bytesOf ''Mexico'') = length (pre @ A @ bytesOf ''Sweden'')"
            by (simp add: bytesOf_def)
          have "drop j ((pre @ A @ bytesOf ''Mexico'') @ post) = drop j ((pre @ A @ bytesOf ''Sweden'') @ post)"
            using l le by (rule drop_same_suffix)
          then have "drop j ?c = drop j c1" unfolding bA b1 by simp
          from indexOf_drop_cong [OF lc1 [symmetric] this] m show ?thesis by auto
        qed
        from d1 d2 d3 show ?thesis by blast
      qed
    qed
  qed
qed

lemma noparen_run:
  assumes "\<forall>j < length bytes.
             \<not> (bytes ! j = CHAR_CODE_PARENTH \<and> isAlphaChar (readByte bytes (j + 1)))"
    and "patchLabelBytesIfNeeded bytes = Some r"
  shows "length r = length bytes"
    and "\<forall>j. foundMatch r j =
            (if foundMatch bytes j = Some True then Some False else foundMatch bytes j)"
    and "\<forall>j < length bytes. foundMatch bytes j \<noteq> None"
    and "\<forall>j. foundMatch bytes j = Some True \<longrightarrow>
            (\<exists>m. indexOf bytes CHAR_CODE_CAPITAL_M j = int m
                \<and> take 6 (drop m r) = bytesOf ''Sweden'')"
proof -
  let ?st = "\<lparr> labelBytes = bytes, writeLog = [] \<rparr>"
  from assms(2) obtain st' where run: "scanLoop ?st 0 = Some st'" and r: "r = labelBytes st'"
    by (auto simp: patchLabelBytesIfNeeded_def patchRun_def)
  have np: "parenthLoop (labelBytes ?st) 0 = - 1"
    unfolding parenthLoop_none_iff using assms(1) by simp
  from scanLoop_log [OF run] show "length r = length bytes" by (simp add: r)
  from scanLoop_noparen [OF run np]
  show "\<forall>j. foundMatch r j =
            (if foundMatch bytes j = Some True then Some False else foundMatch bytes j)"
    and "\<forall>j < length bytes. foundMatch bytes j \<noteq> None"
    and "\<forall>j. foundMatch bytes j = Some True \<longrightarrow>
            (\<exists>m. indexOf bytes CHAR_CODE_CAPITAL_M j = int m
                \<and> take 6 (drop m r) = bytesOf ''Sweden'')"
    by (simp_all add: r)
qed


section \<open>The scan when parentheticals are erased\<close>

text \<open>
  The erasure of the patch phase does not look at the match: it blanks the first
  \<^verbatim>\<open>(\<close> of the whole array that is directly followed by an alphabetic byte,
  through the next \<^verbatim>\<open>)\<close>. It can therefore blank a match the scan has not reached
  yet, or a replacement already written, and it can turn bytes the scan has
  passed into a new match. This section follows a whole scan through such steps.
\<close>

subsection \<open>One patch step, byte for byte\<close>

text \<open>
  After a declared match at \<open>k\<close> the array holds \<^verbatim>\<open>Sweden\<close> at the anchor \<open>m\<close>,
  spaces from \<open>p\<close> through \<open>q\<close> (an empty range when nothing is erased) and its
  old bytes everywhere else. Every byte a scan changes becomes a space or a
  byte of \<^verbatim>\<open>Sweden\<close>.
\<close>

lemma nth_splice:
  assumes "m + length w \<le> length e" "i < length e"
  shows "(take m e @ w @ drop (m + length w) e) ! i =
           (if m \<le> i \<and> i < m + length w then w ! (i - m) else e ! i)"
  using assms by (auto simp: nth_append min_def)

lemma patchMatch_step:
  assumes "foundMatch (labelBytes st) k = Some True"
  obtains m p q where
    "indexOf (labelBytes st) CHAR_CODE_CAPITAL_M k = int m"
    "k < m" "m + 6 \<le> length (labelBytes st)"
    "take 6 (drop m (labelBytes st)) = bytesOf ''Mexico''"
    "p \<le> q \<longrightarrow> p < length (labelBytes st) \<and> labelBytes st ! p = CHAR_CODE_PARENTH"
    "\<forall>i < length (labelBytes st).
        labelBytes (patchMatch st k) ! i =
          (if m \<le> i \<and> i < m + 6 then bytesOf ''Sweden'' ! (i - m)
           else if p \<le> i \<and> i \<le> q then CHAR_CODE_SPACE else labelBytes st ! i)"
    "p \<le> q \<longrightarrow> parenthLoop (labelBytes st) 0 = int p"
proof -
  let ?c = "labelBytes st" and ?e = "labelBytes (eraseParenth st)"
  from foundMatch_TrueD [OF assms] obtain pre g1 g2 post where
    b: "?c = pre @ bytesOf ''Gulf'' @ g1 @ bytesOf ''of'' @ g2 @ bytesOf ''Mexico'' @ post"
    and i: "length pre = k"
    and g: "\<forall>c \<in> set g1. nonAlpha c" "\<forall>c \<in> set g2. nonAlpha c"
    by blast
  define m where "m = length pre + 4 + length g1 + 2 + length g2"
  have ix: "indexOf ?c CHAR_CODE_CAPITAL_M k = int m"
    unfolding b i [symmetric] m_def by (rule anchor_in_phrase [OF g])
  have len: "m + 6 \<le> length ?c"
    unfolding b m_def by (simp add: bytesOf_def)
  have km: "k < m" using i by (simp add: m_def)
  define X where "X = pre @ bytesOf ''Gulf'' @ g1 @ bytesOf ''of'' @ g2"
  have lX: "length X = m" by (simp add: X_def m_def bytesOf_def)
  have bX: "?c = X @ bytesOf ''Mexico'' @ post" by (simp add: X_def b)
  have "drop m ?c = bytesOf ''Mexico'' @ post"
    unfolding bX using lX by simp
  then have tok: "take 6 (drop m ?c) = bytesOf ''Mexico''"
    by (simp add: bytesOf_def)
  have l6: "length (bytesOf ''Sweden'') = 6" by (simp add: bytesOf_def)
  have le: "m + length (bytesOf ''Sweden'') \<le> length ?e" using len l6 by simp
  have c1: "labelBytes (patchMatch st k) ! i =
      (if m \<le> i \<and> i < m + 6 then bytesOf ''Sweden'' ! (i - m) else ?e ! i)"
    if "i < length ?c" for i
  proof -
    from that have "i < length ?e" by simp
    from nth_splice [OF le this] show ?thesis
      unfolding patchMatch_at_anchor(1) [OF ix len] l6 .
  qed
  show thesis
  proof (cases "parenthLoop ?c 0 = - 1")
    case True
    then have e: "eraseParenth st = st" by (rule eraseParenth_none)
    have "\<forall>i < length ?c. labelBytes (patchMatch st k) ! i =
          (if m \<le> i \<and> i < m + 6 then bytesOf ''Sweden'' ! (i - m)
           else if (1 :: nat) \<le> i \<and> i \<le> (0 :: nat) then CHAR_CODE_SPACE else ?c ! i)"
      using c1 e by simp
    moreover have "(1 :: nat) \<le> 0 \<longrightarrow> (1 :: nat) < length ?c \<and> ?c ! 1 = CHAR_CODE_PARENTH"
      by simp
    moreover have "(1 :: nat) \<le> 0 \<longrightarrow> parenthLoop ?c 0 = int 1" by simp
    ultimately show thesis using that [OF ix km len tok] by blast
  next
    case False
    with parenthLoop_range [of ?c 0] obtain p where p: "parenthLoop ?c 0 = int p" by blast
    from eraseParenth_spec [OF p] obtain q where
      q: "p < q" "\<forall>k < length ?c. ?e ! k = (if p \<le> k \<and> k \<le> q then CHAR_CODE_SPACE else ?c ! k)"
      by blast
    from p have pp: "p < length ?c" "?c ! p = CHAR_CODE_PARENTH"
      by (simp_all add: parenthLoop_eq_iff)
    have "\<forall>i < length ?c. labelBytes (patchMatch st k) ! i =
          (if m \<le> i \<and> i < m + 6 then bytesOf ''Sweden'' ! (i - m)
           else if p \<le> i \<and> i \<le> q then CHAR_CODE_SPACE else ?c ! i)"
      using c1 q(2) by simp
    moreover have "p \<le> q \<longrightarrow> p < length ?c \<and> ?c ! p = CHAR_CODE_PARENTH"
      using pp by simp
    moreover have "p \<le> q \<longrightarrow> parenthLoop ?c 0 = int p" using p by simp
    ultimately show thesis using that [OF ix km len tok] by blast
  qed
qed

lemma Sweden_nth_mem: "j < 6 \<Longrightarrow> bytesOf ''Sweden'' ! j \<in> set (bytesOf ''Sweden'')"
  by (rule nth_mem) (simp add: bytesOf_def)

lemma patchMatch_values:
  assumes "foundMatch (labelBytes st) k = Some True" "i < length (labelBytes st)"
  shows "labelBytes (patchMatch st k) ! i = labelBytes st ! i
       \<or> labelBytes (patchMatch st k) ! i = CHAR_CODE_SPACE
       \<or> labelBytes (patchMatch st k) ! i \<in> set (bytesOf ''Sweden'')"
proof -
  obtain m p q where
    s: "\<forall>i < length (labelBytes st).
        labelBytes (patchMatch st k) ! i =
          (if m \<le> i \<and> i < m + 6 then bytesOf ''Sweden'' ! (i - m)
           else if p \<le> i \<and> i \<le> q then CHAR_CODE_SPACE else labelBytes st ! i)"
    by (rule patchMatch_step [OF assms(1)]) (rule that)
  from s assms(2) have e: "labelBytes (patchMatch st k) ! i =
          (if m \<le> i \<and> i < m + 6 then bytesOf ''Sweden'' ! (i - m)
           else if p \<le> i \<and> i \<le> q then CHAR_CODE_SPACE else labelBytes st ! i)"
    by blast
  show ?thesis
  proof (cases "m \<le> i \<and> i < m + 6")
    case True
    then have "i - m < 6" by linarith
    from Sweden_nth_mem [OF this] e True show ?thesis by simp
  next
    case False
    with e show ?thesis by auto
  qed
qed

lemma scanLoop_values:
  assumes "scanLoop st k = Some st'" "i < length (labelBytes st)"
  shows "labelBytes st' ! i = labelBytes st ! i
       \<or> labelBytes st' ! i = CHAR_CODE_SPACE
       \<or> labelBytes st' ! i \<in> set (bytesOf ''Sweden'')"
  using assms
proof (induction st k rule: scanLoop.induct)
  case (1 st k)
  show ?case
  proof (cases "k < length (labelBytes st)")
    case False
    with "1.prems" have "st' = st" by (simp add: scanLoop_end)
    then show ?thesis by simp
  next
    case lt: True
    show ?thesis
    proof (cases "foundMatch (labelBytes st) k")
      case None
      with "1.prems" lt show ?thesis by (simp add: scanLoop_hang)
    next
      case (Some found)
      let ?st1 = "if found then patchMatch st k else st"
      have s: "scanLoop ?st1 (k + 1) = Some st'"
        using "1.prems"(1) lt Some by (subst (asm) scanLoop.simps) simp
      have i1: "i < length (labelBytes ?st1)" using "1.prems"(2) by simp
      note ih = "1.IH" [OF lt Some s i1]
      show ?thesis
      proof (cases found)
        case False
        with ih show ?thesis by simp
      next
        case True
        with Some have fm: "foundMatch (labelBytes st) k = Some True" by simp
        from patchMatch_values [OF fm "1.prems"(2)] ih True show ?thesis by auto
      qed
    qed
  qed
qed

subsection \<open>The matcher in front of a written replacement\<close>

text \<open>
  No pattern byte is \<^verbatim>\<open>S\<close>. A candidate that starts at or before a written \<^verbatim>\<open>S\<close>
  therefore ends there at the latest: its gap loops find an alphabetic byte, so
  it returns, and it answers "no match" unless the pattern was complete before.
\<close>

lemma matchTail_meets_S:
  assumes "83 \<notin> set ps"
  shows "matchTail (u @ 83 # rest) ps \<noteq> None"
  using assms
proof (induction ps arbitrary: u)
  case Nil
  show ?case by simp
next
  case (Cons p ps)
  have aS: "\<not> nonAlpha 83" by (simp add: nonAlpha_iff)
  from Cons.prems have pS: "p \<noteq> 83" and ps: "83 \<notin> set ps" by auto
  show ?case
  proof (cases u)
    case Nil
    with pS aS show ?thesis by simp
  next
    case u: (Cons x u')
    show ?thesis
    proof (cases "p = CHAR_CODE_SPACE \<and> nonAlpha x")
      case True
      have d: "dropWhile nonAlpha (u' @ 83 # rest) = dropWhile nonAlpha u' @ 83 # rest"
        using aS by (rule dropWhile_stop)
      have ne: "dropWhile nonAlpha u' @ 83 # rest \<noteq> []" by simp
      have "matchTail (u @ 83 # rest) (p # ps) = matchTail (dropWhile nonAlpha u' @ 83 # rest) ps"
        unfolding u using True d case_nonempty [OF ne, of None "\<lambda>xs. matchTail xs ps"]
        by simp
      with Cons.IH [OF ps, of "dropWhile nonAlpha u'"] show ?thesis by simp
    next
      case False
      then have "matchTail (u @ 83 # rest) (p # ps) =
          (if x = p then matchTail (u' @ 83 # rest) ps else Some False)"
        unfolding u by auto
      with Cons.IH [OF ps, of u'] show ?thesis by auto
    qed
  qed
qed

lemma foundMatch_before_S:
  assumes "j \<le> m" "m < length r" "r ! m = 83"
  shows "foundMatch r j \<noteq> None"
proof -
  have "drop j r = take (m - j) (drop j r) @ drop (m - j) (drop j r)"
    by (rule append_take_drop_id [symmetric])
  also have "drop (m - j) (drop j r) = drop m r" using assms(1) by simp
  also have "drop m r = r ! m # drop (Suc m) r" using assms(2) by (simp add: Cons_nth_drop_Suc)
  finally have d: "drop j r = take (m - j) (drop j r) @ 83 # drop (Suc m) r"
    using assms(3) by simp
  have "83 \<notin> set SEARCH_PATTERN_BYTES" by (simp add: SEARCH_PATTERN_BYTES_eq)
  then have "matchTail (take (m - j) (drop j r) @ 83 # drop (Suc m) r) SEARCH_PATTERN_BYTES \<noteq> None"
    by (rule matchTail_meets_S)
  then have "matchTail (drop j r) SEARCH_PATTERN_BYTES \<noteq> None"
    by (subst d)
  then show ?thesis by (simp add: foundMatch_matchTail)
qed

lemma matchTail_stops_at_S:
  assumes "77 \<notin> set u" "77 \<in> set ps" "83 \<notin> set ps"
  shows "matchTail (u @ 83 # rest) ps = Some False"
  using assms
proof (induction ps arbitrary: u)
  case Nil
  then show ?case by simp
next
  case (Cons p ps)
  have aS: "\<not> nonAlpha 83" by (simp add: nonAlpha_iff)
  from Cons.prems have pS: "p \<noteq> 83" and ps: "83 \<notin> set ps" by auto
  show ?case
  proof (cases u)
    case Nil
    with pS aS show ?thesis by simp
  next
    case u: (Cons x u')
    from Cons.prems(1) u have xM: "x \<noteq> 77" and u'M: "77 \<notin> set u'" by auto
    show ?thesis
    proof (cases "p = CHAR_CODE_SPACE \<and> nonAlpha x")
      case True
      then have "p \<noteq> 77" by (simp add: char_code_eqs)
      with Cons.prems(2) have M: "77 \<in> set ps" by simp
      have d: "dropWhile nonAlpha (u' @ 83 # rest) = dropWhile nonAlpha u' @ 83 # rest"
        using aS by (rule dropWhile_stop)
      have ne: "dropWhile nonAlpha u' @ 83 # rest \<noteq> []" by simp
      have nd: "77 \<notin> set (dropWhile nonAlpha u')"
        using u'M by (auto dest: set_dropWhileD)
      have "matchTail (u @ 83 # rest) (p # ps) = matchTail (dropWhile nonAlpha u' @ 83 # rest) ps"
        unfolding u using True d case_nonempty [OF ne, of None "\<lambda>xs. matchTail xs ps"]
        by simp
      with Cons.IH [OF nd M ps] show ?thesis by simp
    next
      case False
      then have e: "matchTail (u @ 83 # rest) (p # ps) =
          (if x = p then matchTail (u' @ 83 # rest) ps else Some False)"
        unfolding u by auto
      show ?thesis
      proof (cases "x = p")
        case True
        with xM Cons.prems(2) have M: "77 \<in> set ps" by auto
        from Cons.IH [OF u'M M ps] e True show ?thesis by simp
      next
        case False
        with e show ?thesis by simp
      qed
    qed
  qed
qed

subsection \<open>What a returning scan leaves behind\<close>

text \<open>
  In the array a scan returns, the matcher returns at every index; and a scan
  that found a match has changed the array.
\<close>

lemma scanLoop_result_no_hang:
  assumes "scanLoop st k = Some st'"
  shows "(\<forall>j. k \<le> j \<longrightarrow> foundMatch (labelBytes st') j \<noteq> None)
       \<and> (labelBytes st' = labelBytes st \<or> (\<forall>j. foundMatch (labelBytes st') j \<noteq> None))"
  using assms
proof (induction st k rule: scanLoop.induct)
  case (1 st k)
  let ?c = "labelBytes st" and ?r = "labelBytes st'"
  show ?case
  proof (cases "k < length ?c")
    case False
    with "1.prems" have e: "st' = st" by (simp add: scanLoop_end)
    have "foundMatch ?c j = Some False" if "k \<le> j" for j
      using that False by (intro foundMatch_past_end) simp
    then show ?thesis unfolding e by simp
  next
    case lt: True
    show ?thesis
    proof (cases "foundMatch ?c k")
      case None
      with "1.prems" lt show ?thesis by (simp add: scanLoop_hang)
    next
      case (Some found)
      let ?st1 = "if found then patchMatch st k else st"
      have s: "scanLoop ?st1 (k + 1) = Some st'"
        using "1.prems"(1) lt Some by (subst (asm) scanLoop.simps) simp
      note ih = "1.IH" [OF lt Some s]
      show ?thesis
      proof (cases found)
        case False
        with ih have a: "\<forall>j. k + 1 \<le> j \<longrightarrow> foundMatch ?r j \<noteq> None"
          and b: "?r = ?c \<or> (\<forall>j. foundMatch ?r j \<noteq> None)" by simp_all
        have "foundMatch ?r j \<noteq> None" if "k \<le> j" for j
        proof (cases "j = k")
          case True
          from b show ?thesis
          proof
            assume "?r = ?c"
            with Some True show ?thesis by simp
          next
            assume "\<forall>j. foundMatch ?r j \<noteq> None"
            then show ?thesis by blast
          qed
        next
          case False
          with that have "k + 1 \<le> j" by simp
          with a show ?thesis by blast
        qed
        with b show ?thesis by blast
      next
        case True
        with Some have fm: "foundMatch ?c k = Some True" by simp
        let ?c1 = "labelBytes (patchMatch st k)"
        from ih True have a: "\<forall>j. k + 1 \<le> j \<longrightarrow> foundMatch ?r j \<noteq> None"
          and b: "?r = ?c1 \<or> (\<forall>j. foundMatch ?r j \<noteq> None)" by simp_all
        obtain m p q where
          km: "k < m" and len: "m + 6 \<le> length ?c"
          and c1: "\<forall>i < length ?c. ?c1 ! i =
            (if m \<le> i \<and> i < m + 6 then bytesOf ''Sweden'' ! (i - m)
             else if p \<le> i \<and> i \<le> q then CHAR_CODE_SPACE else ?c ! i)"
          by (rule patchMatch_step [OF fm]) (rule that)
        from c1 len have S: "?c1 ! m = 83" by (simp add: bytesOf_def charCodeAt0_def)
        have all: "foundMatch ?r j \<noteq> None" for j
          using b
        proof
          assume "\<forall>j. foundMatch ?r j \<noteq> None"
          then show ?thesis by blast
        next
          assume e: "?r = ?c1"
          show ?thesis
          proof (cases "j \<le> m")
            case True
            have "m < length ?r" using len e by simp
            moreover have "?r ! m = 83" using S e by simp
            ultimately show ?thesis using True by (intro foundMatch_before_S)
          next
            case False
            with km have "k + 1 \<le> j" by simp
            with a show ?thesis by blast
          qed
        qed
        then show ?thesis by blast
      qed
    qed
  qed
qed

lemma scanLoop_changes:
  assumes "scanLoop st k = Some st'"
    and "k \<le> j" "foundMatch (labelBytes st) j = Some True"
  shows "labelBytes st' \<noteq> labelBytes st"
  using assms
proof (induction st k rule: scanLoop.induct)
  case (1 st k)
  let ?c = "labelBytes st" and ?r = "labelBytes st'"
  have jl: "j < length ?c"
  proof (rule ccontr)
    assume "\<not> j < length ?c"
    then have "foundMatch ?c j = Some False" by (intro foundMatch_past_end) simp
    with "1.prems"(3) show False by simp
  qed
  with "1.prems"(2) have lt: "k < length ?c" by simp
  show ?case
  proof (cases "foundMatch ?c k")
    case None
    with "1.prems" lt show ?thesis by (simp add: scanLoop_hang)
  next
    case (Some found)
    let ?st1 = "if found then patchMatch st k else st"
    have s: "scanLoop ?st1 (k + 1) = Some st'"
      using "1.prems"(1) lt Some by (subst (asm) scanLoop.simps) simp
    show ?thesis
    proof (cases found)
      case False
      with Some "1.prems"(3) have "j \<noteq> k" by auto
      with "1.prems"(2) have kj: "k + 1 \<le> j" by simp
      from "1.IH" [OF lt Some s kj] False "1.prems"(3) show ?thesis by simp
    next
      case True
      with Some have fm: "foundMatch ?c k = Some True" by simp
      let ?c1 = "labelBytes (patchMatch st k)"
      obtain m p q where
        len: "m + 6 \<le> length ?c"
        and tok: "take 6 (drop m ?c) = bytesOf ''Mexico''"
        and c1: "\<forall>i < length ?c. ?c1 ! i =
          (if m \<le> i \<and> i < m + 6 then bytesOf ''Sweden'' ! (i - m)
           else if p \<le> i \<and> i \<le> q then CHAR_CODE_SPACE else ?c ! i)"
        by (rule patchMatch_step [OF fm]) (rule that)
      from c1 len have S: "?c1 ! m = 83" by (simp add: bytesOf_def charCodeAt0_def)
      have "?c ! m = take 6 (drop m ?c) ! 0" using len by simp
      then have M: "?c ! m = 77" unfolding tok by (simp add: bytesOf_def charCodeAt0_def)
      have ml: "m < length ?c1" using len by simp
      from scanLoop_values [OF s] True ml
      have "?r ! m = ?c1 ! m \<or> ?r ! m = CHAR_CODE_SPACE \<or> ?r ! m \<in> set (bytesOf ''Sweden'')"
        by simp
      with S have "?r ! m \<noteq> 77"
        by (auto simp: bytesOf_def charCodeAt0_def char_code_eqs)
      with M show ?thesis by auto
    qed
  qed
qed
lemma no_match_left_returns_same:
  assumes "\<forall>j < length r. foundMatch r j = Some False"
  shows "patchLabelBytesIfNeeded r = Some r"
proof -
  from assms have "scanLoop \<lparr> labelBytes = r, writeLog = [] \<rparr> 0
           = scanLoop \<lparr> labelBytes = r, writeLog = [] \<rparr> (length r)"
    by (intro scanLoop_skip) simp_all
  then show ?thesis
    by (simp add: patchLabelBytesIfNeeded_def patchRun_def scanLoop_end)
qed

subsection \<open>A match that no erasure touches is patched\<close>

text \<open>
  Take a match at \<open>s\<close> with its anchor at \<open>m\<close>, in the array as the scan has it
  at some index \<open>k \<le> s\<close>. If the returned array still holds the bytes of the
  match from \<open>s\<close> up to \<open>m\<close> (\<^verbatim>\<open>Gulf\<close>, gap, \<^verbatim>\<open>of\<close>, gap), no erasure has touched the
  match: an erased range that meets it blanks its \<^verbatim>\<open>G\<close> or starts at a \<^verbatim>\<open>(\<close> in one
  of its gaps, and neither byte comes back. So the scan reaches \<open>s\<close> with the
  match intact, writes \<^verbatim>\<open>Sweden\<close> at \<open>m\<close>, and no later step overwrites it.
\<close>

lemma window_nth:
  assumes "c = pre @ w @ post" "j < length w"
  shows "c ! (length pre + j) = w ! j"
  using assms by (simp add: nth_append)




lemma phrase_head:
  "(pre @ bytesOf ''Gulf'' @ rest) ! length pre = 71"
  by (simp add: nth_append bytesOf_def charCodeAt0_def)

lemma guard_bytes:
  assumes "\<forall>c \<in> set g1. nonAlpha c" "\<forall>c \<in> set g2. nonAlpha c"
  shows "77 \<notin> set (bytesOf ''Gulf'' @ g1 @ bytesOf ''of'' @ g2)"
proof -
  have aM: "\<not> nonAlpha 77" by (simp add: nonAlpha_iff)
  have "77 \<notin> set g1" "77 \<notin> set g2" using assms aM by blast+
  then show ?thesis by (simp add: bytesOf_def charCodeAt0_def)
qed



subsection \<open>Erasures that start after the match\<close>

text \<open>
  Two properties of runs, used to state when a second call changes nothing.
  \<open>erasesAhead bytes k\<close>: the patch phase of a match at \<open>k\<close> erases nothing, or the
  \<^verbatim>\<open>(\<close> it erases from lies after \<open>k\<close>. \<open>scanErasesAhead st k\<close>: this holds at every
  match the scan declares from index \<open>k\<close> on; the recursion is that of \<open>scanLoop\<close>.
  Such a step changes no byte up to \<open>k\<close>, so the matcher answers at every earlier
  index as before, and "no match" at \<open>k\<close> itself.
\<close>

definition erasesAhead :: "byte list \<Rightarrow> nat \<Rightarrow> bool" where
  "erasesAhead bytes k = (parenthLoop bytes 0 = - 1 \<or> int k < parenthLoop bytes 0)"

function scanErasesAhead :: "patchState \<Rightarrow> nat \<Rightarrow> bool" where
  "scanErasesAhead st k =
     (if k < length (labelBytes st) then
        (case foundMatch (labelBytes st) k of
           None \<Rightarrow> True
         | Some found \<Rightarrow>
             if found then erasesAhead (labelBytes st) k \<and> scanErasesAhead (patchMatch st k) (k + 1)
             else scanErasesAhead st (k + 1))
      else True)"
  by pat_completeness auto
termination
  by (relation "measure (\<lambda>(st, k). length (labelBytes st) - k)") auto

declare scanErasesAhead.simps [simp del]

lemma patched_index_no_match:
  assumes "foundMatch (labelBytes st) k = Some True"
  shows "foundMatch (labelBytes (patchMatch st k)) k = Some False"
proof -
  let ?c = "labelBytes st" and ?c1 = "labelBytes (patchMatch st k)"
  from foundMatch_TrueD [OF assms] obtain pre g1 g2 post where
    b: "?c = pre @ bytesOf ''Gulf'' @ g1 @ bytesOf ''of'' @ g2 @ bytesOf ''Mexico'' @ post"
    and i: "length pre = k"
    and g: "\<forall>c \<in> set g1. nonAlpha c" "\<forall>c \<in> set g2. nonAlpha c"
    by blast
  define A where "A = bytesOf ''Gulf'' @ g1 @ bytesOf ''of'' @ g2"
  have lA: "length A = 4 + length g1 + 2 + length g2" by (simp add: A_def bytesOf_def)
  have bA: "?c = pre @ (A @ bytesOf ''Mexico'') @ post" by (simp add: b A_def)
  have nA: "77 \<notin> set A" unfolding A_def by (rule guard_bytes [OF g])
  obtain m p q where
    ix: "indexOf ?c CHAR_CODE_CAPITAL_M k = int m"
    and km: "k < m" and len: "m + 6 \<le> length ?c"
    and step: "\<forall>i < length ?c. ?c1 ! i =
      (if m \<le> i \<and> i < m + 6 then bytesOf ''Sweden'' ! (i - m)
       else if p \<le> i \<and> i \<le> q then CHAR_CODE_SPACE else ?c ! i)"
    by (rule patchMatch_step [OF assms]) (rule that)
  have "indexOf ?c CHAR_CODE_CAPITAL_M k = int (length pre + 4 + length g1 + 2 + length g2)"
    unfolding b i [symmetric] by (rule anchor_in_phrase [OF g])
  with ix lA i have m: "m = k + length A" by simp
  from step len have S: "?c1 ! m = 83" by (simp add: bytesOf_def charCodeAt0_def)
  define u where "u = take (m - k) (drop k ?c1)"
  have lu: "length u = m - k" using len km by (simp add: u_def)
  have e0: "drop (m - k) (drop k ?c1) = drop m ?c1" using km by simp
  have e1: "drop m ?c1 = 83 # drop (Suc m) ?c1"
    using len S Cons_nth_drop_Suc [of m ?c1] by simp
  have "u @ 83 # drop (Suc m) ?c1 = take (m - k) (drop k ?c1) @ drop (m - k) (drop k ?c1)"
    unfolding u_def e0 e1 ..
  also have "\<dots> = drop k ?c1" by (rule append_take_drop_id)
  finally have d: "drop k ?c1 = u @ 83 # drop (Suc m) ?c1" by (rule sym)
  have nu: "77 \<notin> set u"
  proof
    assume "77 \<in> set u"
    then obtain j where j: "j < length u" "u ! j = 77" by (auto simp: in_set_conv_nth)
    from j(1) lu have jl: "k + j < m" "k + j < length ?c" "j < length A"
      using len m by simp_all
    have "u ! j = ?c1 ! (k + j)" using j(1) lu len km by (simp add: u_def)
    moreover from step jl(2) have "?c1 ! (k + j) =
      (if m \<le> k + j \<and> k + j < m + 6 then bytesOf ''Sweden'' ! (k + j - m)
       else if p \<le> k + j \<and> k + j \<le> q then CHAR_CODE_SPACE else ?c ! (k + j))" by blast
    ultimately have "u ! j = CHAR_CODE_SPACE \<or> u ! j = ?c ! (k + j)" using jl(1) by auto
    moreover have "?c ! (k + j) = A ! j"
      using window_nth [OF bA, of j] jl(3) i by (simp add: nth_append)
    moreover have "A ! j \<in> set A" using jl(3) by (rule nth_mem)
    ultimately show False using j(2) nA by (auto simp: char_code_eqs)
  qed
  have "77 \<in> set SEARCH_PATTERN_BYTES" "83 \<notin> set SEARCH_PATTERN_BYTES"
    by (simp_all add: SEARCH_PATTERN_BYTES_eq)
  from matchTail_stops_at_S [OF nu this]
  have "matchTail (u @ 83 # drop (Suc m) ?c1) SEARCH_PATTERN_BYTES = Some False" .
  then have "matchTail (drop k ?c1) SEARCH_PATTERN_BYTES = Some False" by (subst d)
  then show ?thesis by (simp add: foundMatch_matchTail)
qed

lemma patch_ahead_keeps_earlier:
  assumes "foundMatch (labelBytes st) k = Some True" "erasesAhead (labelBytes st) k" "j < k"
  shows "foundMatch (labelBytes (patchMatch st k)) j = foundMatch (labelBytes st) j"
proof -
  let ?c = "labelBytes st" and ?c1 = "labelBytes (patchMatch st k)"
  obtain m p q where
    km: "k < m" and len: "m + 6 \<le> length ?c"
    and step: "\<forall>i < length ?c. ?c1 ! i =
      (if m \<le> i \<and> i < m + 6 then bytesOf ''Sweden'' ! (i - m)
       else if p \<le> i \<and> i \<le> q then CHAR_CODE_SPACE else ?c ! i)"
    and pl: "p \<le> q \<longrightarrow> parenthLoop ?c 0 = int p"
    by (rule patchMatch_step [OF assms(1)]) (rule that)
  have kl: "k < length ?c" using km len by simp
  have kp: "k < p" if "p \<le> q"
    using that pl assms(2) by (auto simp: erasesAhead_def)
  have same: "?c1 ! i = ?c ! i" if "i \<le> k" for i
  proof -
    from that kl have "i < length ?c" by simp
    with step have "?c1 ! i =
      (if m \<le> i \<and> i < m + 6 then bytesOf ''Sweden'' ! (i - m)
       else if p \<le> i \<and> i \<le> q then CHAR_CODE_SPACE else ?c ! i)" by blast
    moreover have "\<not> (m \<le> i \<and> i < m + 6)" using that km by simp
    moreover have "\<not> (p \<le> i \<and> i \<le> q)" using that kp by auto
    ultimately show ?thesis by simp
  qed
  from foundMatch_TrueD [OF assms(1)] obtain pre rest where
    b: "?c = pre @ bytesOf ''Gulf'' @ rest" and i: "length pre = k" by blast
  have G: "?c ! k = 71" unfolding b i [symmetric] by (rule phrase_head)
  have t: "take k ?c1 = take k ?c"
    by (rule nth_take_lemma) (use kl same in simp_all)
  have e: "xs = take k xs @ xs ! k # drop (Suc k) xs" if "k < length xs" for xs :: "byte list"
    using that by (rule id_take_nth_drop)
  have dj: "drop j xs = drop j (take k xs) @ xs ! k # drop (Suc k) xs"
    if "k < length xs" for xs :: "byte list"
  proof -
    have "drop j xs = drop j (take k xs @ xs ! k # drop (Suc k) xs)"
      using e [OF that] by simp
    also have "\<dots> = drop j (take k xs) @ xs ! k # drop (Suc k) xs"
      using assms(3) that by simp
    finally show ?thesis .
  qed
  have ne: "drop j (take k ?c) \<noteq> []" using assms(3) kl by simp
  have "drop j ?c1 = drop j (take k ?c) @ 71 # drop (Suc k) ?c1"
    using dj [of ?c1] kl t same [of k] G by simp
  moreover have "drop j ?c = drop j (take k ?c) @ 71 # drop (Suc k) ?c"
    using dj [of ?c] kl G by simp
  ultimately show ?thesis
    unfolding foundMatch_matchTail using matchTail_before_G [OF ne] by simp
qed

lemma scanLoop_erases_ahead:
  assumes "scanLoop st k = Some st'" "scanErasesAhead st k"
    and "\<forall>j < k. foundMatch (labelBytes st) j = Some False"
  shows "foundMatch (labelBytes st') j = Some False"
  using assms
proof (induction st k rule: scanLoop.induct)
  case (1 st k)
  let ?c = "labelBytes st"
  show ?case
  proof (cases "k < length ?c")
    case False
    with "1.prems"(1) have e: "st' = st" by (simp add: scanLoop_end)
    show ?thesis
    proof (cases "j < k")
      case True
      with "1.prems"(3) e show ?thesis by simp
    next
      case nj: False
      with False have "length ?c \<le> j" by simp
      then show ?thesis unfolding e by (rule foundMatch_past_end)
    qed
  next
    case lt: True
    show ?thesis
    proof (cases "foundMatch ?c k")
      case None
      with "1.prems"(1) lt show ?thesis by (simp add: scanLoop_hang)
    next
      case (Some found)
      let ?st1 = "if found then patchMatch st k else st"
      have s: "scanLoop ?st1 (k + 1) = Some st'"
        using "1.prems"(1) lt Some by (subst (asm) scanLoop.simps) simp
      show ?thesis
      proof (cases found)
        case False
        have a: "scanErasesAhead ?st1 (k + 1)"
          using "1.prems"(2) lt Some False by (subst (asm) scanErasesAhead.simps) simp
        have "\<forall>j < k + 1. foundMatch (labelBytes ?st1) j = Some False"
        proof (intro allI impI)
          fix j assume "j < k + 1"
          then consider "j < k" | "j = k" by linarith
          then show "foundMatch (labelBytes ?st1) j = Some False"
            using "1.prems"(3) Some False by cases simp_all
        qed
        from "1.IH" [OF lt Some s a this] show ?thesis .
      next
        case True
        with Some have fm: "foundMatch ?c k = Some True" by simp
        have a: "erasesAhead ?c k" "scanErasesAhead ?st1 (k + 1)"
          using "1.prems"(2) lt Some True by (subst (asm) scanErasesAhead.simps, simp)+
        have "\<forall>j < k + 1. foundMatch (labelBytes ?st1) j = Some False"
        proof (intro allI impI)
          fix j assume "j < k + 1"
          then consider "j < k" | "j = k" by linarith
          then show "foundMatch (labelBytes ?st1) j = Some False"
          proof cases
            case 1
            from patch_ahead_keeps_earlier [OF fm a(1) 1] "1.prems"(3) 1 True
            show ?thesis by simp
          next
            case 2
            with patched_index_no_match [OF fm] True show ?thesis by simp
          qed
        qed
        from "1.IH" [OF lt Some s a(2) this] show ?thesis .
      qed
    qed
  qed
qed

section \<open>Claims\<close>

text \<open>
  C1. The claim: for every input the patch operation terminates, and a
  candidate whose wildcard-gap run would pass the end of the array fails
  gracefully. The code does not: on the five bytes of \<^verbatim>\<open>"Gulf "\<close> the candidate at
  index 0 matches \<^verbatim>\<open>Gulf\<close>, enters the gap loop at the space, and the loop
  reads \<^verbatim>\<open>undefined\<close> past the end for ever, since \<^verbatim>\<open>!isAlphaChar(undefined)\<close>
  is true. The call never returns.
\<close>

theorem patch_Gulf_space_never_returns:
  "patchLabelBytesIfNeeded (bytesOf ''Gulf '') = None"
proof -
  let ?b = "[71, 117, 108, 102, 32] :: byte list"
  have e: "bytesOf ''Gulf '' = ?b" by (simp add: bytesOf_def charCodeAt0_def)
  have g: "gapLoop ?b 0 (Suc (Suc (Suc (Suc 0)))) = None"
    by (rule gapLoop_None) (simp add: readByte_def isAlphaChar_def)
  have "foundMatch ?b 0 = None"
    by (simp add: foundMatch_def SEARCH_PATTERN_BYTES_eq char_code_eqs isAlphaChar_def g)
  then show ?thesis unfolding e
    by (simp add: patchLabelBytesIfNeeded_def patchRun_def scanLoop.simps)
qed






text \<open>
  C3. With an alphabetic byte \<open>x\<close> where the first separator should be and an
  alphabetic byte \<open>y\<close> where the second should be (\<^verbatim>\<open>GulfXofXMexico\<close> is \<open>x = y = X\<close>),
  the matcher answers "no match" at every start index. In general a candidate
  that reaches the wildcard-gap marker on an alphabetic byte fails there, and a
  candidate that survives the marker stood on a non-alphabetic byte.
\<close>

theorem alphabetic_separator_never_matches:
  assumes "isAlphaChar (Some x)" and "isAlphaChar (Some y)"
  shows "foundMatch (bytesOf ''Gulf'' @ [x] @ bytesOf ''of'' @ [y] @ bytesOf ''Mexico'') i
           = Some False
       \<and> (\<forall>b s off ps. s + off < length b \<and> isAlphaChar (Some (b ! (s + off))) \<longrightarrow>
             patternLoop b s off (CHAR_CODE_SPACE # ps) = Some False)
       \<and> (\<forall>b s off ps. patternLoop b s off (CHAR_CODE_SPACE # ps) = Some True \<longrightarrow>
             s + off < length b \<and> \<not> isAlphaChar (Some (b ! (s + off))))"
proof -
  let ?b = "bytesOf ''Gulf'' @ [x] @ bytesOf ''of'' @ [y] @ bytesOf ''Mexico''"
  have b: "?b = [71, 117, 108, 102, x, 111, 102, y, 77, 101, 120, 105, 99, 111]"
    by (simp add: bytesOf_def charCodeAt0_def)
  have nx: "\<not> nonAlpha x" and ny: "\<not> nonAlpha y"
    using assms by (simp_all add: nonAlpha_def)
  have sx: "x \<noteq> 32" and sy: "y \<noteq> 32"
    using assms alpha_not_space by (auto simp: char_code_eqs)
  have "foundMatch ?b i = Some False"
  proof (cases "i < 14")
    case False
    then show ?thesis unfolding b by (intro foundMatch_past_end) simp
  next
    case True
    then have "i = 0 \<or> i = 1 \<or> i = 2 \<or> i = 3 \<or> i = 4 \<or> i = 5 \<or> i = 6
      \<or> i = 7 \<or> i = 8 \<or> i = 9 \<or> i = 10 \<or> i = 11 \<or> i = 12 \<or> i = 13"
      by presburger
    then show ?thesis
      unfolding foundMatch_matchTail b SEARCH_PATTERN_BYTES_eq
      by (elim disjE) (simp_all add: char_code_eqs nx ny sx sy)
  qed
  moreover have "patternLoop b s off (CHAR_CODE_SPACE # ps) = Some False"
    if "s + off < length b \<and> isAlphaChar (Some (b ! (s + off)))" for b s off ps
    using that patternLoop_gap_on_alpha by blast
  moreover have "s + off < length b \<and> \<not> isAlphaChar (Some (b ! (s + off)))"
    if "patternLoop b s off (CHAR_CODE_SPACE # ps) = Some True" for b s off ps
    using that by (rule patternLoop_gap_needs_one)
  ultimately show ?thesis by blast
qed

theorem alphabetic_separator_never_matches_witness:
  "isAlphaChar (Some 88)
   \<and> bytesOf ''Gulf'' @ [88] @ bytesOf ''of'' @ [88] @ bytesOf ''Mexico'' = bytesOf ''GulfXofXMexico''
   \<and> foundMatch (bytesOf ''GulfXofXMexico'') 0 = Some False
   \<and> foundMatch (bytesOf ''GulfXofXMexico'') 4 = Some False
   \<and> foundMatch (bytesOf ''GulfXofXMexico'') 8 = Some False"
proof -
  have a: "isAlphaChar (Some 88)" by (simp add: isAlphaChar_def)
  have e: "bytesOf ''Gulf'' @ [88] @ bytesOf ''of'' @ [88] @ bytesOf ''Mexico''
      = bytesOf ''GulfXofXMexico''"
    by (simp add: bytesOf_def charCodeAt0_def)
  from alphabetic_separator_never_matches [OF a a, of 0]
       alphabetic_separator_never_matches [OF a a, of 4]
       alphabetic_separator_never_matches [OF a a, of 8]
  show ?thesis unfolding e using a by simp
qed

text \<open>
  C4. As stated the claim fails. On \<^verbatim>\<open>"Gulf(x)of Mexico Gulf of Mexico"\<close> the first
  candidate fails at \<^verbatim>\<open>x\<close>; the match at index 17 then erases the parenthetical
  \<^verbatim>\<open>(x)\<close>, which lies before it, and so creates a fuzzy match at index 0 that
  the scan has already passed. The first call returns
  \<^verbatim>\<open>"Gulf   of Mexico Gulf of Sweden"\<close>; a second call changes it to
  \<^verbatim>\<open>"Gulf   of Sweden Gulf of Sweden"\<close>.
\<close>

theorem second_patch_changes_bytes_counterexample:
  "patchLabelBytesIfNeeded (bytesOf ''Gulf(x)of Mexico Gulf of Mexico'')
     = Some (bytesOf ''Gulf   of Mexico Gulf of Sweden'')
   \<and> patchLabelBytesIfNeeded (bytesOf ''Gulf   of Mexico Gulf of Sweden'')
     = Some (bytesOf ''Gulf   of Sweden Gulf of Sweden'')
   \<and> bytesOf ''Gulf   of Sweden Gulf of Sweden'' \<noteq> bytesOf ''Gulf   of Mexico Gulf of Sweden''"
  by code_simp

text \<open>
  C4, amended. When a first call returns an array \<open>r\<close>, a second call on \<open>r\<close>
  returns \<open>r\<close> unchanged if and only if the matcher declares no match at any
  index of \<open>r\<close>. That is so whenever every erasure of the first call starts after
  the start index of the match being patched (\<open>scanErasesAhead\<close>, as in
  \<^verbatim>\<open>"Gulf of Mexico (Gulf of America)"\<close>), and whenever the given array has no \<^verbatim>\<open>(\<close>
  directly followed by an alphabetic byte, so that nothing is erased at all.
\<close>

theorem second_patch_changes_nothing_iff_no_match_left:
  assumes "patchLabelBytesIfNeeded bytes = Some r"
  shows "(patchLabelBytesIfNeeded r = Some r \<longleftrightarrow>
            (\<forall>j < length r. foundMatch r j \<noteq> Some True))
       \<and> (scanErasesAhead \<lparr> labelBytes = bytes, writeLog = [] \<rparr> 0 \<longrightarrow>
            patchLabelBytesIfNeeded r = Some r)
       \<and> ((\<forall>j < length bytes.
              \<not> (bytes ! j = CHAR_CODE_PARENTH \<and> isAlphaChar (readByte bytes (j + 1)))) \<longrightarrow>
            patchLabelBytesIfNeeded r = Some r)"
proof -
  let ?st = "\<lparr> labelBytes = bytes, writeLog = [] \<rparr>"
  from assms obtain st' where run: "scanLoop ?st 0 = Some st'" and r: "r = labelBytes st'"
    by (auto simp: patchLabelBytesIfNeeded_def patchRun_def)
  from scanLoop_result_no_hang [OF run] have nn: "foundMatch r j \<noteq> None" for j
    by (simp add: r)
  have a: "patchLabelBytesIfNeeded r = Some r \<longleftrightarrow>
            (\<forall>j < length r. foundMatch r j \<noteq> Some True)"
  proof
    assume again: "patchLabelBytesIfNeeded r = Some r"
    let ?sr = "\<lparr> labelBytes = r, writeLog = [] \<rparr>"
    from again obtain st2 where run2: "scanLoop ?sr 0 = Some st2" and r2: "labelBytes st2 = r"
      by (auto simp: patchLabelBytesIfNeeded_def patchRun_def)
    show "\<forall>j < length r. foundMatch r j \<noteq> Some True"
    proof (intro allI impI notI)
      fix j assume "foundMatch r j = Some True"
      then have "foundMatch (labelBytes ?sr) j = Some True" by simp
      from scanLoop_changes [OF run2 _ this] r2 show False by simp
    qed
  next
    assume none: "\<forall>j < length r. foundMatch r j \<noteq> Some True"
    have "foundMatch r j = Some False" if "j < length r" for j
    proof (cases "foundMatch r j")
      case None
      with nn [of j] show ?thesis by simp
    next
      case (Some found)
      with none that show ?thesis by (cases found) auto
    qed
    then show "patchLabelBytesIfNeeded r = Some r"
      by (intro no_match_left_returns_same) simp
  qed
  have b: "patchLabelBytesIfNeeded r = Some r"
    if ahead: "scanErasesAhead ?st 0"
  proof -
    have "\<forall>j < (0 :: nat). foundMatch (labelBytes ?st) j = Some False" by simp
    from scanLoop_erases_ahead [OF run ahead this]
    have "foundMatch r j = Some False" for j by (simp add: r)
    then show ?thesis by (intro no_match_left_returns_same) simp
  qed
  have c: "patchLabelBytesIfNeeded r = Some r"
    if np: "\<forall>j < length bytes.
              \<not> (bytes ! j = CHAR_CODE_PARENTH \<and> isAlphaChar (readByte bytes (j + 1)))"
  proof -
    note n = noparen_run [OF np assms]
    have "foundMatch r j = Some False" if "j < length r" for j
    proof (cases "foundMatch bytes j")
      case None
      moreover from n(1,3) that have "foundMatch bytes j \<noteq> None" by metis
      ultimately show ?thesis by simp
    next
      case (Some found)
      with n(2) show ?thesis by (cases found) simp_all
    qed
    then show ?thesis by (intro no_match_left_returns_same) simp
  qed
  show ?thesis
  proof (intro conjI impI)
    show "patchLabelBytesIfNeeded r = Some r \<longleftrightarrow>
            (\<forall>j < length r. foundMatch r j \<noteq> Some True)" by (rule a)
  next
    assume "scanErasesAhead ?st 0"
    then show "patchLabelBytesIfNeeded r = Some r" by (rule b)
  next
    assume "\<forall>j < length bytes.
              \<not> (bytes ! j = CHAR_CODE_PARENTH \<and> isAlphaChar (readByte bytes (j + 1)))"
    then show "patchLabelBytesIfNeeded r = Some r" by (rule c)
  qed
qed


theorem second_patch_changes_nothing_iff_no_match_left_witness:
  "patchLabelBytesIfNeeded
       (bytesOf ''Gulf of Mexico (Gulf of America) Gulf of Mexico (Gulf of America)'')
     = Some (bytesOf ''Gulf of Sweden                   Gulf of Sweden                  '')
   \<and> scanErasesAhead
        \<lparr> labelBytes = bytesOf ''Gulf of Mexico (Gulf of America) Gulf of Mexico (Gulf of America)'',
          writeLog = [] \<rparr> 0
   \<and> patchLabelBytesIfNeeded
        (bytesOf ''Gulf of Sweden                   Gulf of Sweden                  '')
     = Some (bytesOf ''Gulf of Sweden                   Gulf of Sweden                  '')
   \<and> patchLabelBytesIfNeeded (bytesOf ''(Gulf of America) Gulf of Mexico'')
     = Some (bytesOf ''                  Gulf of Sweden'')
   \<and> \<not> scanErasesAhead \<lparr> labelBytes = bytesOf ''(Gulf of America) Gulf of Mexico'', writeLog = [] \<rparr> 0
   \<and> list_all (\<lambda>j. foundMatch (bytesOf ''                  Gulf of Sweden'') j \<noteq> Some True)
       [0 ..< length (bytesOf ''                  Gulf of Sweden'')]
   \<and> patchLabelBytesIfNeeded (bytesOf ''                  Gulf of Sweden'')
     = Some (bytesOf ''                  Gulf of Sweden'')
   \<and> patchLabelBytesIfNeeded (bytesOf ''Gulf of Mexico, Gulf of Mexico'')
     = Some (bytesOf ''Gulf of Sweden, Gulf of Sweden'')
   \<and> list_all (\<lambda>j. \<not> (bytesOf ''Gulf of Mexico, Gulf of Mexico'' ! j = CHAR_CODE_PARENTH
                   \<and> isAlphaChar (readByte (bytesOf ''Gulf of Mexico, Gulf of Mexico'') (j + 1))))
       [0 ..< length (bytesOf ''Gulf of Mexico, Gulf of Mexico'')]
   \<and> patchLabelBytesIfNeeded (bytesOf ''Gulf of Sweden, Gulf of Sweden'')
     = Some (bytesOf ''Gulf of Sweden, Gulf of Sweden'')"
proof -
  let ?b = "bytesOf ''Gulf of Mexico (Gulf of America) Gulf of Mexico (Gulf of America)''"
  let ?r = "bytesOf ''Gulf of Sweden                   Gulf of Sweden                  ''"
  let ?b' = "bytesOf ''(Gulf of America) Gulf of Mexico''"
  let ?r' = "bytesOf ''                  Gulf of Sweden''"
  let ?c = "bytesOf ''Gulf of Mexico, Gulf of Mexico''"
  let ?d = "bytesOf ''Gulf of Sweden, Gulf of Sweden''"
  have run: "patchLabelBytesIfNeeded ?b = Some ?r" by code_simp
  have ahead: "scanErasesAhead \<lparr> labelBytes = ?b, writeLog = [] \<rparr> 0" by code_simp
  from second_patch_changes_nothing_iff_no_match_left [OF run, THEN conjunct2, THEN conjunct1]
    ahead
  have again: "patchLabelBytesIfNeeded ?r = Some ?r" by (rule mp)
  have run': "patchLabelBytesIfNeeded ?b' = Some ?r'" by code_simp
  have behind: "\<not> scanErasesAhead \<lparr> labelBytes = ?b', writeLog = [] \<rparr> 0" by code_simp
  have la: "list_all (\<lambda>j. foundMatch ?r' j \<noteq> Some True) [0 ..< length ?r']" by code_simp
  then have "\<forall>j < length ?r'. foundMatch ?r' j \<noteq> Some True" by (simp add: list_all_iff)
  with second_patch_changes_nothing_iff_no_match_left [OF run', THEN conjunct1]
  have again': "patchLabelBytesIfNeeded ?r' = Some ?r'" by (rule iffD2)
  have run'': "patchLabelBytesIfNeeded ?c = Some ?d" by code_simp
  have np: "list_all (\<lambda>j. \<not> (?c ! j = CHAR_CODE_PARENTH \<and> isAlphaChar (readByte ?c (j + 1))))
       [0 ..< length ?c]" by code_simp
  then have "\<forall>j < length ?c. \<not> (?c ! j = CHAR_CODE_PARENTH \<and> isAlphaChar (readByte ?c (j + 1)))"
    by (simp add: list_all_iff)
  with second_patch_changes_nothing_iff_no_match_left [OF run'', THEN conjunct2, THEN conjunct2]
  have again'': "patchLabelBytesIfNeeded ?d = Some ?d" by (rule mp)
  show ?thesis by (intro conjI) (fact run ahead again run' behind la again' run'' np again'')+
qed

text \<open>
  C5. The patch phase erases before it replaces, and what it erases does not
  depend on the start index of the match: the search for the parenthesis runs
  over the whole array from index 0. If no \<^verbatim>\<open>(\<close> is directly followed by an
  alphabetic byte, nothing is erased. Otherwise let \<open>p\<close> be the first such \<^verbatim>\<open>(\<close>
  and \<open>q\<close> the first index after \<open>p\<close> that holds \<^verbatim>\<open>)\<close>, or the length of the array
  when there is none: every byte from \<open>p\<close> through \<open>q\<close> becomes a space and every
  other byte is kept. On \<^verbatim>\<open>"Gulf of Mexico (Gulf of America)"\<close> the call returns
  \<^verbatim>\<open>"Gulf of Sweden"\<close> followed by spaces only.
\<close>

theorem parenthetical_is_erased:
  fixes st :: patchState
  assumes "b = labelBytes st"
  shows "patchMatch st k = replaceLoop (eraseParenth st) (indexOf b CHAR_CODE_CAPITAL_M k)
       \<and> ((\<forall>j < length b. \<not> (b ! j = CHAR_CODE_PARENTH \<and> isAlphaChar (readByte b (j + 1))))
            \<longrightarrow> eraseParenth st = st)
       \<and> (\<forall>p. p < length b \<and> b ! p = CHAR_CODE_PARENTH \<and> isAlphaChar (readByte b (p + 1))
              \<and> (\<forall>j < p. \<not> (b ! j = CHAR_CODE_PARENTH \<and> isAlphaChar (readByte b (j + 1))))
            \<longrightarrow> (\<exists>q. p < q \<and> q \<le> length b
                    \<and> (q < length b \<longrightarrow> b ! q = CHAR_CODE_CLOSE_PARENTH)
                    \<and> (\<forall>j. p \<le> j \<and> j < q \<longrightarrow> b ! j \<noteq> CHAR_CODE_CLOSE_PARENTH)
                    \<and> length (labelBytes (eraseParenth st)) = length b
                    \<and> (\<forall>j < length b. labelBytes (eraseParenth st) ! j =
                          (if p \<le> j \<and> j \<le> q then CHAR_CODE_SPACE else b ! j))))
       \<and> patchLabelBytesIfNeeded (bytesOf ''Gulf of Mexico (Gulf of America)'')
           = Some (bytesOf ''Gulf of Sweden                  '')"
proof (intro conjI allI impI)
  show "patchMatch st k = replaceLoop (eraseParenth st) (indexOf b CHAR_CODE_CAPITAL_M k)"
    by (simp add: patchMatch_def assms)
next
  assume "\<forall>j < length b. \<not> (b ! j = CHAR_CODE_PARENTH \<and> isAlphaChar (readByte b (j + 1)))"
  then have "parenthLoop (labelBytes st) 0 = - 1"
    unfolding parenthLoop_none_iff assms by simp
  then show "eraseParenth st = st" by (rule eraseParenth_none)
next
  fix p
  assume h: "p < length b \<and> b ! p = CHAR_CODE_PARENTH \<and> isAlphaChar (readByte b (p + 1))
              \<and> (\<forall>j < p. \<not> (b ! j = CHAR_CODE_PARENTH \<and> isAlphaChar (readByte b (j + 1))))"
  then have "parenthLoop (labelBytes st) 0 = int p"
    unfolding parenthLoop_eq_iff assms by simp
  from eraseParenth_spec [OF this, folded assms] obtain q where
    q: "p < q" "q \<le> length b" "q < length b \<longrightarrow> b ! q = CHAR_CODE_CLOSE_PARENTH"
      "\<forall>j. p \<le> j \<and> j < q \<longrightarrow> b ! j \<noteq> CHAR_CODE_CLOSE_PARENTH"
      "\<forall>j < length b. labelBytes (eraseParenth st) ! j =
                          (if p \<le> j \<and> j \<le> q then CHAR_CODE_SPACE else b ! j)"
    by blast
  have l: "length (labelBytes (eraseParenth st)) = length b" by (simp add: assms)
  show "\<exists>q. p < q \<and> q \<le> length b
                    \<and> (q < length b \<longrightarrow> b ! q = CHAR_CODE_CLOSE_PARENTH)
                    \<and> (\<forall>j. p \<le> j \<and> j < q \<longrightarrow> b ! j \<noteq> CHAR_CODE_CLOSE_PARENTH)
                    \<and> length (labelBytes (eraseParenth st)) = length b
                    \<and> (\<forall>j < length b. labelBytes (eraseParenth st) ! j =
                          (if p \<le> j \<and> j \<le> q then CHAR_CODE_SPACE else b ! j))"
    by (rule exI [of _ q], intro conjI) (fact q l)+
next
  show "patchLabelBytesIfNeeded (bytesOf ''Gulf of Mexico (Gulf of America)'')
           = Some (bytesOf ''Gulf of Sweden                  '')"
    by code_simp
qed

theorem parenthetical_is_erased_witness:
  "labelBytes \<lparr> labelBytes = bytesOf ''Gulf of Mexico (Gulf of America)'', writeLog = [] \<rparr> ! 15
     = CHAR_CODE_PARENTH
   \<and> isAlphaChar (readByte (bytesOf ''Gulf of Mexico (Gulf of America)'') 16)
   \<and> list_all (\<lambda>j. \<not> (bytesOf ''Gulf of Mexico (Gulf of America)'' ! j = CHAR_CODE_PARENTH
                   \<and> isAlphaChar (readByte (bytesOf ''Gulf of Mexico (Gulf of America)'') (j + 1))))
       [0 ..< 15]
   \<and> (\<exists>q. 15 < q \<and> q \<le> length (bytesOf ''Gulf of Mexico (Gulf of America)'')
        \<and> (\<forall>j < length (bytesOf ''Gulf of Mexico (Gulf of America)'').
             labelBytes (eraseParenth
                \<lparr> labelBytes = bytesOf ''Gulf of Mexico (Gulf of America)'', writeLog = [] \<rparr>) ! j =
             (if 15 \<le> j \<and> j \<le> q then CHAR_CODE_SPACE
              else bytesOf ''Gulf of Mexico (Gulf of America)'' ! j)))
   \<and> labelBytes (eraseParenth
        \<lparr> labelBytes = bytesOf ''Gulf of Mexico (Gulf of America)'', writeLog = [] \<rparr>)
       = bytesOf ''Gulf of Mexico                  ''
   \<and> eraseParenth \<lparr> labelBytes = bytesOf ''Gulf of Mexico'', writeLog = [] \<rparr>
       = \<lparr> labelBytes = bytesOf ''Gulf of Mexico'', writeLog = [] \<rparr>"
proof -
  let ?b = "bytesOf ''Gulf of Mexico (Gulf of America)''"
  let ?st = "\<lparr> labelBytes = ?b, writeLog = [] \<rparr>"
  have h1: "labelBytes ?st ! 15 = CHAR_CODE_PARENTH" by code_simp
  have h2: "isAlphaChar (readByte ?b 16)" by code_simp
  have h3: "list_all (\<lambda>j. \<not> (?b ! j = CHAR_CODE_PARENTH \<and> isAlphaChar (readByte ?b (j + 1))))
       [0 ..< 15]" by code_simp
  have h: "15 < length ?b \<and> ?b ! 15 = CHAR_CODE_PARENTH \<and> isAlphaChar (readByte ?b (15 + 1))
              \<and> (\<forall>j < 15. \<not> (?b ! j = CHAR_CODE_PARENTH \<and> isAlphaChar (readByte ?b (j + 1))))"
    using h1 h2 h3 by (simp add: list_all_iff bytesOf_def)
  have e: "?b = labelBytes ?st" by simp
  from parenthetical_is_erased [OF e, of 0, THEN conjunct2, THEN conjunct2, THEN conjunct1,
      rule_format, OF h]
  obtain q where q: "15 < q" "q \<le> length ?b"
    "\<forall>j < length ?b. labelBytes (eraseParenth ?st) ! j =
             (if 15 \<le> j \<and> j \<le> q then CHAR_CODE_SPACE else ?b ! j)"
    by blast
  have c: "\<exists>q. 15 < q \<and> q \<le> length ?b
        \<and> (\<forall>j < length ?b. labelBytes (eraseParenth ?st) ! j =
             (if 15 \<le> j \<and> j \<le> q then CHAR_CODE_SPACE else ?b ! j))"
    by (rule exI [of _ q], intro conjI) (fact q)+
  have r: "labelBytes (eraseParenth ?st) = bytesOf ''Gulf of Mexico                  ''"
    by code_simp
  have n: "eraseParenth \<lparr> labelBytes = bytesOf ''Gulf of Mexico'', writeLog = [] \<rparr>
       = \<lparr> labelBytes = bytesOf ''Gulf of Mexico'', writeLog = [] \<rparr>"
    by code_simp
  show ?thesis by (intro conjI) (fact h1 h2 h3 c r n)+
qed

text \<open>
  C6. Once a match is declared at index \<open>i\<close>, \<^verbatim>\<open>mexicoStartIndex\<close> is the first
  index at or after \<open>i\<close> that holds \<^verbatim>\<open>M\<close> (the search runs from \<open>i\<close> to the end of
  the array); the patch phase assigns to the six indices from there on, in
  order, and the array after it is the array after the erasure with the six
  bytes of \<^verbatim>\<open>Sweden\<close> at those indices and every other byte as the erasure left it.
\<close>

theorem replacement_written_at_anchor:
  assumes "foundMatch (labelBytes st) i = Some True"
  shows "\<exists>m. indexOf (labelBytes st) CHAR_CODE_CAPITAL_M i = int m
         \<and> i \<le> m \<and> m + length REPLACEMENT_BYTES \<le> length (labelBytes st)
         \<and> labelBytes st ! m = CHAR_CODE_CAPITAL_M
         \<and> (\<forall>j. i \<le> j \<and> j < m \<longrightarrow> labelBytes st ! j \<noteq> CHAR_CODE_CAPITAL_M)
         \<and> labelBytes (patchMatch st i) =
             take m (labelBytes (eraseParenth st)) @ REPLACEMENT_BYTES @
             drop (m + length REPLACEMENT_BYTES) (labelBytes (eraseParenth st))
         \<and> writeLog (patchMatch st i) =
             writeLog (eraseParenth st) @ map (\<lambda>k. int m + int k) [0 ..< length REPLACEMENT_BYTES]"
proof -
  from foundMatch_TrueD [OF assms] obtain pre g1 g2 post where
    b: "labelBytes st =
             pre @ bytesOf ''Gulf'' @ g1 @ bytesOf ''of'' @ g2 @ bytesOf ''Mexico'' @ post"
    and i: "length pre = i"
    and g: "\<forall>c \<in> set g1. nonAlpha c" "\<forall>c \<in> set g2. nonAlpha c"
    by blast
  let ?m = "length pre + 4 + length g1 + 2 + length g2"
  have ix: "indexOf (labelBytes st) CHAR_CODE_CAPITAL_M i = int ?m"
    unfolding b i [symmetric] by (rule anchor_in_phrase [OF g])
  have len: "?m + 6 \<le> length (labelBytes st)"
    unfolding b by (simp add: bytesOf_def)
  have r: "bytesOf ''Sweden'' = REPLACEMENT_BYTES" and l6: "length REPLACEMENT_BYTES = 6"
    by (simp_all add: REPLACEMENT_BYTES_def bytesOf_def)
  have u: "[int ?m, int ?m + 1, int ?m + 2, int ?m + 3, int ?m + 4, int ?m + 5]
      = map (\<lambda>k. int ?m + int k) [0 ..< length REPLACEMENT_BYTES]"
    unfolding l6 by (simp add: upt_rec)
  from ix [unfolded indexOf_eq_iff]
  have f: "i \<le> ?m" "labelBytes st ! ?m = CHAR_CODE_CAPITAL_M"
    "\<forall>j. i \<le> j \<and> j < ?m \<longrightarrow> labelBytes st ! j \<noteq> CHAR_CODE_CAPITAL_M"
    by blast+
  note pm = patchMatch_at_anchor [OF ix len, unfolded r u, folded l6]
  note len' = len [folded l6]
  show ?thesis
    by (rule exI [of _ ?m], intro conjI) (fact ix f len' pm)+
qed

theorem replacement_written_at_anchor_witness:
  "foundMatch (bytesOf ''MM Gulf of Mexico M'') 3 = Some True
   \<and> indexOf (bytesOf ''MM Gulf of Mexico M'') CHAR_CODE_CAPITAL_M 3 = 11
   \<and> labelBytes (patchMatch \<lparr> labelBytes = bytesOf ''MM Gulf of Mexico M'', writeLog = [] \<rparr> 3)
       = bytesOf ''MM Gulf of Sweden M''
   \<and> writeLog (patchMatch \<lparr> labelBytes = bytesOf ''MM Gulf of Mexico M'', writeLog = [] \<rparr> 3)
       = [11, 12, 13, 14, 15, 16]"
proof -
  let ?st = "\<lparr> labelBytes = bytesOf ''MM Gulf of Mexico M'', writeLog = [] \<rparr>"
  have fm: "foundMatch (labelBytes ?st) 3 = Some True" by code_simp
  from replacement_written_at_anchor [OF fm] obtain m where
    m: "indexOf (labelBytes ?st) CHAR_CODE_CAPITAL_M 3 = int m"
    and w: "writeLog (patchMatch ?st 3) =
             writeLog (eraseParenth ?st) @ map (\<lambda>k. int m + int k) [0 ..< length REPLACEMENT_BYTES]"
    by (elim exE conjE) (rule that)
  have ix: "indexOf (bytesOf ''MM Gulf of Mexico M'') CHAR_CODE_CAPITAL_M 3 = 11"
    by code_simp
  with m have "m = 11" by simp
  have e: "writeLog (eraseParenth ?st) = []" by code_simp
  have "writeLog (patchMatch ?st 3) = [11, 12, 13, 14, 15, 16]"
    unfolding w e \<open>m = 11\<close> by (simp add: REPLACEMENT_BYTES_eq upt_rec)
  moreover have "labelBytes (patchMatch ?st 3) = bytesOf ''MM Gulf of Sweden M''"
    by code_simp
  ultimately show ?thesis using fm ix by simp
qed

text \<open>
  C7. The claim: without a fuzzy match the call is a normal negative result
  and the array is returned unchanged. A call that returns does return such an
  array unchanged (\<open>scanLoop_unchanged\<close>: the patch phase only runs after a declared
  match), but the call need not return. The eight bytes of \<^verbatim>\<open>"Gulf of "\<close> hold no
  fuzzy match; the candidate at index 0 matches \<^verbatim>\<open>Gulf\<close>, a gap and \<^verbatim>\<open>of\<close>, enters the
  gap loop at the last space, and the loop reads \<^verbatim>\<open>undefined\<close> past the end for
  ever. This is the defect of C1.
\<close>

theorem no_match_yet_never_returns:
  "list_all (\<lambda>i. foundMatch (bytesOf ''Gulf of '') i \<noteq> Some True)
     [0 ..< length (bytesOf ''Gulf of '')]
   \<and> patchLabelBytesIfNeeded (bytesOf ''Gulf of '') = None"
proof -
  let ?b = "[71, 117, 108, 102, 32, 111, 102, 32] :: byte list"
  have e: "bytesOf ''Gulf of '' = ?b" by (simp add: bytesOf_def charCodeAt0_def)
  have h: "foundMatch ?b 0 = None"
    by (simp add: foundMatch_matchTail SEARCH_PATTERN_BYTES_eq char_code_eqs nonAlpha_iff)
  have "foundMatch ?b i \<noteq> Some True" if "i < 8" for i
  proof -
    from that have "i = 0 \<or> i = 1 \<or> i = 2 \<or> i = 3 \<or> i = 4 \<or> i = 5 \<or> i = 6 \<or> i = 7"
      by presburger
    then show ?thesis
      unfolding foundMatch_matchTail SEARCH_PATTERN_BYTES_eq
      by (elim disjE) (simp_all add: char_code_eqs nonAlpha_iff)
  qed
  then have la: "list_all (\<lambda>i. foundMatch ?b i \<noteq> Some True) [0 ..< length ?b]"
    by (simp add: list_all_iff)
  have "scanLoop \<lparr> labelBytes = ?b, writeLog = [] \<rparr> 0 = None"
    by (rule scanLoop_hang) (simp_all add: h)
  then have "patchLabelBytesIfNeeded ?b = None"
    by (simp add: patchLabelBytesIfNeeded_def patchRun_def)
  with la show ?thesis unfolding e by simp
qed






text \<open>
  C9. A call that returns has kept the length of the array, and every index
  it has assigned to, during erasure or replacement, is an index of the array.
  The same holds for each single run of the patch phase after a declared match
  (so also in a call that does not return): the length is kept and the indices
  it adds to the write log are indices of the array.
\<close>

theorem length_kept_and_writes_in_bounds:
  "(\<forall>st'. patchRun bytes = Some st' \<longrightarrow>
       length (labelBytes st') = length bytes
     \<and> (\<forall>i \<in> set (writeLog st'). 0 \<le> i \<and> i < int (length bytes)))
   \<and> (\<forall>(st :: patchState) k. foundMatch (labelBytes st) k = Some True \<longrightarrow>
       length (labelBytes (patchMatch st k)) = length (labelBytes st)
     \<and> take (length (writeLog st)) (writeLog (patchMatch st k)) = writeLog st
     \<and> (\<forall>i \<in> set (drop (length (writeLog st)) (writeLog (patchMatch st k))).
            0 \<le> i \<and> i < int (length (labelBytes st))))"
proof (intro conjI allI impI)
  fix st' assume r: "patchRun bytes = Some st'"
  from scanLoop_log [OF r [unfolded patchRun_def]]
  show "length (labelBytes st') = length bytes"
    and "\<forall>i \<in> set (writeLog st'). 0 \<le> i \<and> i < int (length bytes)"
    by (auto simp: inBounds_def list_all_iff)
next
  fix st :: patchState and k assume m: "foundMatch (labelBytes st) k = Some True"
  show "length (labelBytes (patchMatch st k)) = length (labelBytes st)" by simp
  from patchMatch_log [OF m] obtain ws where
    w: "writeLog (patchMatch st k) = writeLog st @ ws"
    and b: "inBounds (length (labelBytes st)) ws" by blast
  show "take (length (writeLog st)) (writeLog (patchMatch st k)) = writeLog st"
    unfolding w by simp
  show "\<forall>i \<in> set (drop (length (writeLog st)) (writeLog (patchMatch st k))).
            0 \<le> i \<and> i < int (length (labelBytes st))"
    unfolding w using b by (simp add: inBounds_def list_all_iff)
qed

theorem length_kept_and_writes_in_bounds_witness:
  "patchRun (bytesOf ''Gulf of Mexico (Gulf of America)'')
     = Some \<lparr> labelBytes = bytesOf ''Gulf of Sweden                  '',
             writeLog = [15, 16, 17, 18, 19, 20, 21, 22, 23, 24, 25, 26, 27, 28, 29, 30, 31,
                         8, 9, 10, 11, 12, 13] \<rparr>
   \<and> length (bytesOf ''Gulf of Sweden                  '')
       = length (bytesOf ''Gulf of Mexico (Gulf of America)'')
   \<and> list_all (\<lambda>i. 0 \<le> i \<and> i < int (length (bytesOf ''Gulf of Mexico (Gulf of America)'')))
       [15, 16, 17, 18, 19, 20, 21, 22, 23, 24, 25, 26, 27, 28, 29, 30, 31, 8, 9, 10, 11, 12, 13]"
proof -
  let ?b = "bytesOf ''Gulf of Mexico (Gulf of America)''"
  let ?r = "\<lparr> labelBytes = bytesOf ''Gulf of Sweden                  '',
             writeLog = [15, 16, 17, 18, 19, 20, 21, 22, 23, 24, 25, 26, 27, 28, 29, 30, 31,
                         8, 9, 10, 11, 12, 13] \<rparr>"
  have run: "patchRun ?b = Some ?r" by code_simp
  from length_kept_and_writes_in_bounds [of ?b, THEN conjunct1, rule_format, OF run]
  have "length (labelBytes ?r) = length ?b
     \<and> (\<forall>i \<in> set (writeLog ?r). 0 \<le> i \<and> i < int (length ?b))" .
  then have "length (bytesOf ''Gulf of Sweden                  '') = length ?b"
    and "list_all (\<lambda>i. 0 \<le> i \<and> i < int (length ?b))
       [15, 16, 17, 18, 19, 20, 21, 22, 23, 24, 25, 26, 27, 28, 29, 30, 31, 8, 9, 10, 11, 12, 13]"
    unfolding list_all_iff by simp_all
  with run show ?thesis by (intro conjI)
qed

text \<open>
  C10. Whenever the matcher declares a match at index \<open>i\<close>, the array is a
  prefix of length \<open>i\<close>, then \<^verbatim>\<open>Gulf\<close>, a gap, \<^verbatim>\<open>of\<close>, a gap, \<^verbatim>\<open>Mexico\<close> and a
  suffix; the search \<^verbatim>\<open>indexOf('M', i)\<close> does not return \<open>-1\<close>, it returns the
  index of the \<^verbatim>\<open>M\<close> of that very \<^verbatim>\<open>Mexico\<close> (no byte of the match before it is an
  \<^verbatim>\<open>M\<close>), and the patch phase writes \<^verbatim>\<open>Sweden\<close> exactly there.
\<close>

theorem anchor_is_the_matched_token:
  assumes "foundMatch (labelBytes st) i = Some True"
  shows "\<exists>pre g1 g2 post.
           labelBytes st =
             pre @ bytesOf ''Gulf'' @ g1 @ bytesOf ''of'' @ g2 @ bytesOf ''Mexico'' @ post
         \<and> length pre = i
         \<and> g1 \<noteq> [] \<and> g2 \<noteq> []
         \<and> (\<forall>c \<in> set g1. \<not> isAlphaChar (Some c)) \<and> (\<forall>c \<in> set g2. \<not> isAlphaChar (Some c))
         \<and> CHAR_CODE_CAPITAL_M \<notin> set (bytesOf ''Gulf'' @ g1 @ bytesOf ''of'' @ g2)
         \<and> indexOf (labelBytes st) CHAR_CODE_CAPITAL_M i \<noteq> - 1
         \<and> indexOf (labelBytes st) CHAR_CODE_CAPITAL_M i
             = int (length (pre @ bytesOf ''Gulf'' @ g1 @ bytesOf ''of'' @ g2))
         \<and> take 6 (drop (length (pre @ bytesOf ''Gulf'' @ g1 @ bytesOf ''of'' @ g2))
                     (labelBytes (patchMatch st i))) = bytesOf ''Sweden''"
proof -
  from foundMatch_TrueD [OF assms] obtain pre g1 g2 post where
    b: "labelBytes st =
             pre @ bytesOf ''Gulf'' @ g1 @ bytesOf ''of'' @ g2 @ bytesOf ''Mexico'' @ post"
    and i: "length pre = i"
    and ne: "g1 \<noteq> []" "g2 \<noteq> []"
    and g: "\<forall>c \<in> set g1. nonAlpha c" "\<forall>c \<in> set g2. nonAlpha c"
    by blast
  let ?A = "bytesOf ''Gulf'' @ g1 @ bytesOf ''of'' @ g2"
  let ?m = "length (pre @ ?A)"
  have m: "?m = length pre + 4 + length g1 + 2 + length g2" by (simp add: bytesOf_def)
  have aM: "\<not> nonAlpha 77" by (simp add: nonAlpha_iff)
  have "77 \<notin> set g1" "77 \<notin> set g2" using g aM by blast+
  then have notM: "CHAR_CODE_CAPITAL_M \<notin> set ?A"
    by (simp add: bytesOf_def charCodeAt0_def char_code_eqs)
  have ix: "indexOf (labelBytes st) CHAR_CODE_CAPITAL_M i = int ?m"
    unfolding b m i [symmetric] by (rule anchor_in_phrase [OF g])
  then have nf: "indexOf (labelBytes st) CHAR_CODE_CAPITAL_M i \<noteq> - 1" by simp
  have len: "?m + 6 \<le> length (labelBytes st)"
    unfolding b by (simp add: bytesOf_def)
  have "length (take ?m (labelBytes (eraseParenth st))) = ?m"
    using len by simp
  then have sw: "take 6 (drop ?m (labelBytes (patchMatch st i))) = bytesOf ''Sweden''"
    unfolding patchMatch_at_anchor(1) [OF ix len] by (rule take6_Sweden)
  have g': "\<forall>c \<in> set g1. \<not> isAlphaChar (Some c)" "\<forall>c \<in> set g2. \<not> isAlphaChar (Some c)"
    using g by (simp_all add: nonAlpha_def)
  show ?thesis
    by (rule exI [of _ pre], rule exI [of _ g1], rule exI [of _ g2], rule exI [of _ post],
        intro conjI)
       (fact b i ne g' notM nf ix sw)+
qed

theorem anchor_is_the_matched_token_witness:
  "foundMatch (bytesOf ''MM Gulf of Mexico M'') 3 = Some True
   \<and> indexOf (bytesOf ''MM Gulf of Mexico M'') CHAR_CODE_CAPITAL_M 3 = 11
   \<and> labelBytes (patchMatch \<lparr> labelBytes = bytesOf ''MM Gulf of Mexico M'', writeLog = [] \<rparr> 3)
       = bytesOf ''MM Gulf of Sweden M''"
proof -
  let ?st = "\<lparr> labelBytes = bytesOf ''MM Gulf of Mexico M'', writeLog = [] \<rparr>"
  have fm: "foundMatch (labelBytes ?st) 3 = Some True" by code_simp
  from anchor_is_the_matched_token [OF fm]
  have "indexOf (labelBytes ?st) CHAR_CODE_CAPITAL_M 3 \<noteq> - 1"
    by (elim exE conjE)
  moreover have "indexOf (bytesOf ''MM Gulf of Mexico M'') CHAR_CODE_CAPITAL_M 3 = 11"
    by code_simp
  moreover have "labelBytes (patchMatch ?st 3) = bytesOf ''MM Gulf of Sweden M''"
    by code_simp
  ultimately show ?thesis using fm by simp
qed

end
